theory Spec2Isabelle
  imports Main
begin

section \<open>Values, state objects and the store\<close>

text \<open>
  The store of \<^verbatim>\<open>src/index.ts\<close> is the pair of closed-over variables \<^verbatim>\<open>state\<close> and
  \<^verbatim>\<open>listeners\<close> of one \<^verbatim>\<open>create\<close> call. Functions are JavaScript references, so a
  listener is identified by a function identity \<open>fid\<close>; state objects live in a heap
  and are identified by their address \<open>ref\<close>.
\<close>

type_synonym fid = nat
type_synonym ref = nat

datatype val = VUndefined | VNaN | VBool bool | VNum int | VStr string | VFun fid | VRef ref

text \<open>\<^verbatim>\<open>Record<string, any>\<close>: the own properties of a plain object.\<close>

type_synonym obj = "string \<rightharpoonup> val"

datatype exn = ReferenceError | Thrown string

text \<open>
  \<^verbatim>\<open>PartialState<T> = Partial<T> | ((state: T) => Partial<T>)\<close>. An updater function is
  a function of the contents of the state object it is given; it returns the delta or
  throws.
\<close>

datatype partial = Obj obj | Fn "obj \<Rightarrow> exn + obj"

text \<open>
  What has been observed of a run: \<open>Merged a p\<close> says that a \<^verbatim>\<open>setState\<close> call applied the
  partial \<open>p\<close> and stored the result as the new object \<open>a\<close>; \<open>Invoked a l r\<close> says that
  the notification pass of the \<^verbatim>\<open>setState\<close> call that produced \<open>a\<close> called listener \<open>l\<close>
  with the state object \<open>r\<close>.
\<close>

datatype event = Merged ref partial | Invoked ref fid ref

text \<open>
  \<open>state = None\<close> is the \<^verbatim>\<open>let state\<close> binding before its initialisation (line 100): reading
  it throws a ReferenceError. \<open>listeners\<close> is the entry list of the JavaScript \<^verbatim>\<open>Set\<close>, in
  insertion order, where a deleted entry is replaced by the marker \<open>None\<close> (ECMAScript's
  \<^verbatim>\<open>empty\<close>). \<open>fresh\<close> is the next unused heap address. \<open>trace\<close> is the log of events; the
  source has no such variable.
\<close>

record store =
  state :: "ref option"
  listeners :: "fid option list"
  heap :: "ref \<Rightarrow> obj"
  fresh :: ref
  trace :: "event list"

subsection \<open>The JavaScript Set of listeners\<close>

definition set_add :: "fid \<Rightarrow> fid option list \<Rightarrow> fid option list" where
  "set_add l xs = (if Some l \<in> set xs then xs else xs @ [Some l])"

definition set_delete :: "fid \<Rightarrow> fid option list \<Rightarrow> fid option list" where
  "set_delete l xs = map (\<lambda>e. if e = Some l then None else e) xs"

definition set_clear :: "fid option list \<Rightarrow> fid option list" where
  "set_clear xs = map (\<lambda>e. None) xs"

text \<open>The members of the Set, in insertion order.\<close>

fun live :: "fid option list \<Rightarrow> fid list" where
  "live [] = []"
| "live (None # xs) = live xs"
| "live (Some l # xs) = l # live xs"

subsection \<open>Client code\<close>

text \<open>
  A listener, or any other client function, acts on the store only through the store's
  API. Its body is the list of API calls it makes, chosen from the contents of the state
  object it is called with.
\<close>

datatype action =
    SetState partial
  | GetState
  | Subscribe fid
  | Unsubscribe fid
  | Destroy
  | Raise exn

type_synonym bodies = "fid \<Rightarrow> obj \<Rightarrow> action list"

datatype completion = Returned store | Threw exn store

fun store_of :: "completion \<Rightarrow> store" where
  "store_of (Returned s) = s"
| "store_of (Threw e s) = s"

section \<open>The store operations\<close>

text \<open>Line 42: \<^verbatim>\<open>const getState = () => state\<close>.\<close>

definition getState :: "store \<Rightarrow> exn + ref" where
  "getState s = (case state s of None \<Rightarrow> Inl ReferenceError | Some r \<Rightarrow> Inr r)"

text \<open>
  Lines 44-49: \<^verbatim>\<open>subscribe\<close> adds the listener and returns the closure that deletes it.
\<close>

definition unsubscribe :: "fid \<Rightarrow> store \<Rightarrow> store" where
  "unsubscribe l s = s\<lparr>listeners := set_delete l (listeners s)\<rparr>"

definition subscribe :: "fid \<Rightarrow> store \<Rightarrow> store \<times> (store \<Rightarrow> store)" where
  "subscribe l s = (s\<lparr>listeners := set_add l (listeners s)\<rparr>, unsubscribe l)"

text \<open>
  Lines 51-54: \<^verbatim>\<open>listeners.clear()\<close>, then \<^verbatim>\<open>state = {}\<close>, a newly allocated object.
  \<^verbatim>\<open>destroy\<close> is reachable only through the \<^verbatim>\<open>api\<close> object, which is built after
  \<^verbatim>\<open>state\<close> has been initialised.
\<close>

definition destroy :: "store \<Rightarrow> store" where
  "destroy s = s\<lparr>listeners := set_clear (listeners s),
                 state := Some (fresh s),
                 heap := (heap s)(fresh s := Map.empty),
                 fresh := Suc (fresh s)\<rparr>"

text \<open>
  The value of \<^verbatim>\<open>typeof partialState === 'function' ? partialState(state) : partialState\<close>.
\<close>

fun delta_of :: "partial \<Rightarrow> obj \<Rightarrow> exn + obj" where
  "delta_of (Obj d) st = Inr d"
| "delta_of (Fn f) st = f st"

text \<open>
  Lines 34-38: \<^verbatim>\<open>state = Object.assign({}, state, delta)\<close>. Reading \<^verbatim>\<open>state\<close> before its
  initialisation throws; a throwing updater leaves the assignment undone.
  \<^verbatim>\<open>Object.assign\<close> copies the properties of the old state and then those of the delta
  into the new object \<^verbatim>\<open>{}\<close>.
\<close>

definition assign_state :: "partial \<Rightarrow> store \<Rightarrow> exn + store" where
  "assign_state p s =
     (case state s of
        None \<Rightarrow> Inl ReferenceError
      | Some r \<Rightarrow>
          (case delta_of p (heap s r) of
             Inl e \<Rightarrow> Inl e
           | Inr d \<Rightarrow>
               Inr (s\<lparr>state := Some (fresh s),
                      heap := (heap s)(fresh s := heap s r ++ d),
                      fresh := Suc (fresh s),
                      trace := trace s @ [Merged (fresh s) p]\<rparr>)))"

text \<open>
  Lines 33-40. \<open>setState\<close> is the function; \<open>forEach\<close> is
  \<^verbatim>\<open>listeners.forEach(listener => listener(state))\<close> from entry index \<open>i\<close> on, following
  ECMAScript's \<^verbatim>\<open>Set.prototype.forEach\<close>: the entry list is read again at every step,
  an empty entry is passed over, and entries appended during the pass are visited. The
  callback reads the variable \<^verbatim>\<open>state\<close> when it is called. \<open>exec\<close> runs the body of a
  client function. A listener may call \<^verbatim>\<open>setState\<close> again, so a run need not end: the
  first argument bounds the number of steps, and \<open>None\<close> means that the bound was reached.
  The argument \<open>a\<close> of \<open>forEach\<close> names the \<^verbatim>\<open>setState\<close> call whose pass it is (by the state
  object the call produced) and is used for the trace only.
\<close>

fun setState :: "nat \<Rightarrow> bodies \<Rightarrow> partial \<Rightarrow> store \<Rightarrow> completion option"
  and forEach :: "nat \<Rightarrow> bodies \<Rightarrow> ref \<Rightarrow> nat \<Rightarrow> store \<Rightarrow> completion option"
  and exec :: "nat \<Rightarrow> bodies \<Rightarrow> action list \<Rightarrow> store \<Rightarrow> completion option"
where
  "setState 0 B p s = None"
| "setState (Suc n) B p s =
     (case assign_state p s of
        Inl e \<Rightarrow> Some (Threw e s)
      | Inr s1 \<Rightarrow> forEach n B (fresh s) 0 s1)"
| "forEach 0 B a i s = None"
| "forEach (Suc n) B a i s =
     (if i < length (listeners s) then
        (case listeners s ! i of
           None \<Rightarrow> forEach n B a (Suc i) s
         | Some l \<Rightarrow>
             (case state s of
                None \<Rightarrow> Some (Threw ReferenceError s)
              | Some r \<Rightarrow>
                  (case exec n B (B l (heap s r)) (s\<lparr>trace := trace s @ [Invoked a l r]\<rparr>) of
                     Some (Returned s') \<Rightarrow> forEach n B a (Suc i) s'
                   | other \<Rightarrow> other)))
      else Some (Returned s))"
| "exec 0 B acts s = None"
| "exec (Suc n) B [] s = Some (Returned s)"
| "exec (Suc n) B (SetState p # acts) s =
     (case setState n B p s of
        Some (Returned s') \<Rightarrow> exec n B acts s'
      | other \<Rightarrow> other)"
| "exec (Suc n) B (GetState # acts) s =
     (case getState s of
        Inl e \<Rightarrow> Some (Threw e s)
      | Inr r \<Rightarrow> exec n B acts s)"
| "exec (Suc n) B (Subscribe l # acts) s = exec n B acts (fst (subscribe l s))"
| "exec (Suc n) B (Unsubscribe l # acts) s = exec n B acts (unsubscribe l s)"
| "exec (Suc n) B (Destroy # acts) s = exec n B acts (destroy s)"
| "exec (Suc n) B (Raise e # acts) s = Some (Threw e s)"

section \<open>Creating a store\<close>

text \<open>
  Lines 22-31 and 100-103. While the initializer runs, \<^verbatim>\<open>state\<close> is not initialised and
  the Set is empty. The initializer receives \<^verbatim>\<open>set\<close> and \<^verbatim>\<open>get\<close> only; it is given by the
  calls it makes while it runs and the object it returns.
\<close>

definition init_store :: store where
  "init_store = \<lparr>state = None, listeners = [], heap = (\<lambda>a. Map.empty), fresh = 0, trace = []\<rparr>"

datatype init_call = CallSet partial | CallGet

fun init_action :: "init_call \<Rightarrow> action" where
  "init_action (CallSet p) = SetState p"
| "init_action CallGet = GetState"

type_synonym initializer = "init_call list \<times> obj"

definition create :: "nat \<Rightarrow> bodies \<Rightarrow> initializer \<Rightarrow> completion option" where
  "create n B ini =
     (case exec n B (map init_action (fst ini)) init_store of
        Some (Returned s) \<Rightarrow>
          Some (Returned (s\<lparr>state := Some (fresh s),
                            heap := (heap s)(fresh s := snd ini),
                            fresh := Suc (fresh s)\<rparr>))
      | other \<Rightarrow> other)"

section \<open>The listener of the binding hook\<close>

text \<open>
  A slice is what a selector returns: a primitive value, or an object with its identity
  and its properties. A selector is a function of the state object.
\<close>

datatype slice = Prim val | Object ref obj

type_synonym selector = "ref \<Rightarrow> obj \<Rightarrow> slice"

text \<open>The two refs of a mounted \<^verbatim>\<open>useStore\<close> instance (lines 71 and 78).\<close>

record hook =
  selectStateRef :: selector
  stateSliceRef :: slice

text \<open>Lines 81-84: the layout effect that runs after a render has been committed.\<close>

definition commit :: "selector \<Rightarrow> slice \<Rightarrow> hook \<Rightarrow> hook" where
  "commit selectState stateSlice h =
     h\<lparr>selectStateRef := selectState, stateSliceRef := stateSlice\<rparr>"

text \<open>
  Lines 88-94, the listener that \<^verbatim>\<open>useStore\<close> subscribes. It reads the variable
  \<^verbatim>\<open>state\<close>. \<open>Inr (Some x)\<close> is \<^verbatim>\<open>dispatch(x)\<close>, \<open>Inr None\<close> is a return without a
  dispatch. \<^verbatim>\<open>shallowEqual\<close> is imported from a file that is not among the sources and
  is the parameter \<open>eq\<close>.
\<close>

definition hook_listener ::
  "(slice \<Rightarrow> slice \<Rightarrow> bool) \<Rightarrow> hook \<Rightarrow> store \<Rightarrow> exn + slice option" where
  "hook_listener eq h s =
     (case state s of
        None \<Rightarrow> Inl ReferenceError
      | Some r \<Rightarrow>
          (let selectedSlice = selectStateRef h r (heap s r)
           in if \<not> eq (stateSliceRef h) selectedSlice
              then Inr (Some selectedSlice) else Inr None))"

text \<open>
  Modelled from the spec: \<^verbatim>\<open>./shallowEqual\<close> is imported by \<^verbatim>\<open>index.ts\<close> and is not among
  the sources. The spec calls it a structural comparison of two mappings' own keys and
  values one level deep, without recursing into nested structures.
\<close>

fun shallowEqual :: "slice \<Rightarrow> slice \<Rightarrow> bool" where
  "shallowEqual (Prim a) (Prim b) = (a = b)"
| "shallowEqual (Object r1 o1) (Object r2 o2) = (r1 = r2 \<or> o1 = o2)"
| "shallowEqual (Prim a) (Object r2 o2) = False"
| "shallowEqual (Object r1 o1) (Prim b) = False"

section \<open>The specification's merge\<close>

text \<open>
  Written from the spec's words, to be compared with \<open>setState\<close>: the left-to-right
  shallow merge of the partials onto a state, where a function partial is first applied
  to the state current at that point and the delta's keys win.
\<close>

fun merge_partials :: "obj \<Rightarrow> partial list \<Rightarrow> exn + obj" where
  "merge_partials st [] = Inr st"
| "merge_partials st (p # ps) =
     (case delta_of p st of
        Inl e \<Rightarrow> Inl e
      | Inr d \<Rightarrow> merge_partials (st ++ d) ps)"

text \<open>The applied partials and the listener calls recorded in a piece of trace.\<close>

fun applied :: "event list \<Rightarrow> partial list" where
  "applied [] = []"
| "applied (Merged a p # es) = p # applied es"
| "applied (Invoked a l r # es) = applied es"

fun invocations :: "event list \<Rightarrow> (ref \<times> fid \<times> ref) list" where
  "invocations [] = []"
| "invocations (Merged a p # es) = invocations es"
| "invocations (Invoked a l r # es) = (a, l, r) # invocations es"

text \<open>The listener calls recorded by a run; none when the step bound was reached.\<close>

fun calls_of :: "completion option \<Rightarrow> (ref \<times> fid \<times> ref) list" where
  "calls_of None = []"
| "calls_of (Some c) = invocations (trace (store_of c))"

section \<open>Example clients\<close>

text \<open>
  The store of the spec's scenario:
  \<^verbatim>\<open>create((set) => ({count: 0, inc: () => set(s => ({count: s.count + 1}))}))\<close>.
  The function \<^verbatim>\<open>inc\<close> has identity 0; its body is the one \<^verbatim>\<open>set\<close> call. Every other
  function is a listener that only looks at the state. In the scenario \<^verbatim>\<open>count\<close> is
  always a number; for any other value the updater is given \<^verbatim>\<open>NaN\<close> as its result.
\<close>

definition inc_updater :: "obj \<Rightarrow> exn + obj" where
  "inc_updater st =
     (case st ''count'' of
        Some (VNum k) \<Rightarrow> Inr [''count'' \<mapsto> VNum (k + 1)]
      | other \<Rightarrow> Inr [''count'' \<mapsto> VNaN])"

definition counter_init :: initializer where
  "counter_init = ([], [''count'' \<mapsto> VNum 0, ''inc'' \<mapsto> VFun 0])"

definition counter_bodies :: bodies where
  "counter_bodies l st = (if l = 0 then [SetState (Fn inc_updater)] else [])"

text \<open>The counter store right after \<^verbatim>\<open>create\<close>, with the listeners 1 and 2 subscribed.\<close>

definition counter_store :: store where
  "counter_store =
     \<lparr>state = Some 0, listeners = [Some 1, Some 2],
      heap = (\<lambda>a. Map.empty)(0 := [''count'' \<mapsto> VNum 0, ''inc'' \<mapsto> VFun 0]),
      fresh = 1, trace = []\<rparr>"

text \<open>
  A listener that calls \<^verbatim>\<open>setState\<close> again: listener 1 sets \<^verbatim>\<open>count\<close> to 2 when it sees
  \<^verbatim>\<open>count\<close> equal to 1.
\<close>

definition reenter_bodies :: bodies where
  "reenter_bodies l st =
     (if l = 1 \<and> st ''count'' = Some (VNum 1)
      then [SetState (Obj [''count'' \<mapsto> VNum 2])] else [])"

text \<open>Listener 1 unsubscribes listener 2.\<close>

definition canceller_bodies :: bodies where
  "canceller_bodies l st = (if l = 1 then [Unsubscribe 2] else [])"

text \<open>Listeners that only look at the state.\<close>

definition inert_bodies :: bodies where
  "inert_bodies l st = []"

text \<open>The selector \<^verbatim>\<open>s => ({count: s.count})\<close>: every call allocates a new object.\<close>

definition count_slice :: selector where
  "count_slice r st =
     (case st ''count'' of
        Some v \<Rightarrow> Object (Suc r) [''count'' \<mapsto> v]
      | None \<Rightarrow> Object (Suc r) [''count'' \<mapsto> VUndefined])"

definition unmounted_hook :: hook where
  "unmounted_hook = \<lparr>selectStateRef = (\<lambda>r st. Object r st), stateSliceRef = Prim VUndefined\<rparr>"

section \<open>Relations between the store before and after a run\<close>

text \<open>
  How the entry list of the Set changes: entries are appended, and an entry is replaced
  by the empty marker only.
\<close>

definition grows :: "fid option list \<Rightarrow> fid option list \<Rightarrow> bool" where
  "grows xs ys \<longleftrightarrow>
     length xs \<le> length ys \<and> (\<forall>j<length xs. ys ! j = xs ! j \<or> ys ! j = None)"

text \<open>
  What every run keeps: allocated objects are not written to, \<open>state\<close> is either the
  same reference or a newer object, the trace is extended, the Set grows.
\<close>

definition frame :: "store \<Rightarrow> store \<Rightarrow> bool" where
  "frame s s' \<longleftrightarrow>
     fresh s \<le> fresh s' \<and>
     (\<forall>r<fresh s. heap s' r = heap s r) \<and>
     (state s' = state s \<or> (\<exists>a. state s' = Some a \<and> fresh s \<le> a \<and> a < fresh s')) \<and>
     (\<exists>es. trace s' = trace s @ es) \<and>
     grows (listeners s) (listeners s')"

text \<open>The calls of listener \<open>l\<close> recorded in a trace.\<close>

definition calls_to :: "fid \<Rightarrow> event list \<Rightarrow> (ref \<times> fid \<times> ref) list" where
  "calls_to l es = filter (\<lambda>c. fst (snd c) = l) (invocations es)"

text \<open>A listener that is not in the Set stays out of it and is not called.\<close>

definition unheard :: "fid \<Rightarrow> store \<Rightarrow> store \<Rightarrow> bool" where
  "unheard l s s' \<longleftrightarrow>
     (Some l \<notin> set (listeners s) \<longrightarrow>
        Some l \<notin> set (listeners s') \<and> calls_to l (trace s') = calls_to l (trace s))"

text \<open>Listener 2 removes listener 1 from the Set and adds it again.\<close>

definition readd_bodies :: bodies where
  "readd_bodies l st = (if l = 2 then [Unsubscribe 1, Subscribe 1] else [])"

text \<open>The actions that change the Set of listeners.\<close>

fun structural :: "action \<Rightarrow> bool" where
  "structural (Subscribe l) = True"
| "structural (Unsubscribe l) = True"
| "structural Destroy = True"
| "structural (SetState p) = False"
| "structural GetState = False"
| "structural (Raise e) = False"

text \<open>The actions that assign to the variable \<^verbatim>\<open>state\<close>.\<close>

fun assigns_state :: "action \<Rightarrow> bool" where
  "assigns_state (SetState p) = True"
| "assigns_state Destroy = True"
| "assigns_state GetState = False"
| "assigns_state (Subscribe l) = False"
| "assigns_state (Unsubscribe l) = False"
| "assigns_state (Raise e) = False"

text \<open>
  The state after a run is the specification's merge of the partials that the run
  applied, onto the state before it.
\<close>

definition merged :: "store \<Rightarrow> store \<Rightarrow> bool" where
  "merged s s' \<longleftrightarrow>
     (\<forall>r. state s = Some r \<longrightarrow>
        (\<exists>es r'. trace s' = trace s @ es \<and> state s' = Some r' \<and>
           merge_partials (heap s r) (applied es) = Inr (heap s' r')))"

text \<open>The variable \<^verbatim>\<open>state\<close> and the heap are the same after a run.\<close>

definition same_state :: "store \<Rightarrow> store \<Rightarrow> bool" where
  "same_state s s' \<longleftrightarrow> state s' = state s \<and> heap s' = heap s"

text \<open>
  Reading a trace from a state object \<open>cur\<close> on: \<open>latest\<close> is the object stored last, and
  \<open>observes_current\<close> says that every listener call was given the object stored last
  before it.
\<close>

fun latest :: "ref \<Rightarrow> event list \<Rightarrow> ref" where
  "latest cur [] = cur"
| "latest cur (Merged a p # es) = latest a es"
| "latest cur (Invoked a l r # es) = latest cur es"

fun observes_current :: "ref \<Rightarrow> event list \<Rightarrow> bool" where
  "observes_current cur [] = True"
| "observes_current cur (Merged a p # es) = observes_current a es"
| "observes_current cur (Invoked a l r # es) = (r = cur \<and> observes_current cur es)"

text \<open>Every listener call of a run is given the state that is current when it is made.\<close>

definition current :: "store \<Rightarrow> store \<Rightarrow> bool" where
  "current s s' \<longleftrightarrow>
     (\<forall>r. state s = Some r \<longrightarrow>
        (\<exists>es. trace s' = trace s @ es \<and> observes_current r es \<and>
           state s' = Some (latest r es)))"

text \<open>
  The calls of listener \<open>l\<close> that the pass of the \<open>setState\<close> call that produced \<open>a\<close> made.
\<close>

definition calls_by :: "ref \<Rightarrow> fid \<Rightarrow> event list \<Rightarrow> (ref \<times> fid \<times> ref) list" where
  "calls_by a l es = filter (\<lambda>c. fst c = a \<and> fst (snd c) = l) (invocations es)"

text \<open>
  The listener calls in a piece of trace were all made by passes of \<open>setState\<close> calls that
  produced an object at address \<open>k\<close> or later; or by these and the pass of \<open>a\<close>.
\<close>

definition later_passes :: "ref \<Rightarrow> event list \<Rightarrow> bool" where
  "later_passes k es \<longleftrightarrow> (\<forall>a l r. Invoked a l r \<in> set es \<longrightarrow> k \<le> a)"

definition pass_or_later :: "ref \<Rightarrow> ref \<Rightarrow> event list \<Rightarrow> bool" where
  "pass_or_later a k es \<longleftrightarrow> (\<forall>a' l r. Invoked a' l r \<in> set es \<longrightarrow> a' = a \<or> k \<le> a')"

section \<open>Properties of the Set operations\<close>

lemma live_append: "live (xs @ ys) = live xs @ live ys"
  by (induction xs rule: live.induct) simp_all

lemma set_live: "set (live xs) = {l. Some l \<in> set xs}"
  by (induction xs rule: live.induct) auto

lemma live_set_clear: "live (set_clear xs) = []"
  by (induction xs) (simp_all add: set_clear_def)

lemma live_set_delete: "live (set_delete l xs) = removeAll l (live xs)"
  by (induction xs rule: live.induct) (auto simp: set_delete_def)

lemma live_set_add:
  "live (set_add l xs) = (if l \<in> set (live xs) then live xs else live xs @ [l])"
  by (simp add: set_add_def set_live live_append)

lemma set_add_idem: "set_add l (set_add l xs) = set_add l xs"
  by (simp add: set_add_def)

lemma set_delete_idem: "set_delete l (set_delete l xs) = set_delete l xs"
  by (induction xs) (simp_all add: set_delete_def)

section \<open>Runs as sequences of primitive steps\<close>

text \<open>
  Every run of \<open>setState\<close>, \<open>forEach\<close> and \<open>exec\<close> is a sequence of primitive steps: an
  assignment to \<open>state\<close>, the call of a listener that is in the Set, a \<open>subscribe\<close>, an
  \<open>unsubscribe\<close>, a \<open>destroy\<close>. A reflexive and transitive relation that every
  primitive step respects therefore relates the store before a run to the store after
  it. The predicate \<open>ok\<close> restricts the actions that the clients make.
\<close>

lemma run_rel:
  assumes refl: "\<And>s. R s s"
    and trans: "\<And>s t u. R s t \<Longrightarrow> R t u \<Longrightarrow> R s u"
    and sub: "\<And>l s. ok (Subscribe l) \<Longrightarrow> R s (fst (subscribe l s))"
    and unsub: "\<And>l s. ok (Unsubscribe l) \<Longrightarrow> R s (unsubscribe l s)"
    and des: "\<And>s. ok Destroy \<Longrightarrow> R s (destroy s)"
    and asg: "\<And>p s s1. ok (SetState p) \<Longrightarrow> assign_state p s = Inr s1 \<Longrightarrow> R s s1"
    and inv: "\<And>a l r s i. i < length (listeners s) \<Longrightarrow> listeners s ! i = Some l \<Longrightarrow>
                state s = Some r \<Longrightarrow> R s (s\<lparr>trace := trace s @ [Invoked a l r]\<rparr>)"
  shows "(\<forall>l st x. x \<in> set (B l st) \<longrightarrow> ok x) \<Longrightarrow> ok (SetState p) \<Longrightarrow>
           setState n B p s = Some c \<Longrightarrow> R s (store_of c)"
    and "(\<forall>l st x. x \<in> set (B l st) \<longrightarrow> ok x) \<Longrightarrow>
           forEach n B a i s = Some c \<Longrightarrow> R s (store_of c)"
    and "(\<forall>l st x. x \<in> set (B l st) \<longrightarrow> ok x) \<Longrightarrow> (\<forall>x\<in>set acts. ok x) \<Longrightarrow>
           exec n B acts s = Some c \<Longrightarrow> R s (store_of c)"
proof (induction n B p s and n B a i s and n B acts s arbitrary: c and c and c
    rule: setState_forEach_exec.induct)
  case (2 n B p s)
  have b: "\<forall>l st x. x \<in> set (B l st) \<longrightarrow> ok x" using "2.prems"(1) .
  show ?case
  proof (cases "assign_state p s")
    case (Inl e)
    with 2 show ?thesis by (auto simp: refl)
  next
    case (Inr s1)
    with 2 have "forEach n B (fresh s) 0 s1 = Some c" by simp
    then have "R s1 (store_of c)" using "2.IH"[OF Inr b] by simp
    moreover have "R s s1" using asg "2.prems" Inr by blast
    ultimately show ?thesis by (rule trans[rotated])
  qed
next
  case (4 n B a i s)
  have b: "\<forall>l st x. x \<in> set (B l st) \<longrightarrow> ok x" using "4.prems"(1) .
  show ?case
  proof (cases "i < length (listeners s)")
    case False
    with 4 show ?thesis by (auto simp: refl)
  next
    case True
    show ?thesis
    proof (cases "listeners s ! i")
      case None
      with 4 True show ?thesis by auto
    next
      case (Some l)
      show ?thesis
      proof (cases "state s")
        case None
        with 4 True Some show ?thesis by (auto simp: refl)
      next
        case st: (Some r)
        let ?s1 = "s\<lparr>trace := trace s @ [Invoked a l r]\<rparr>"
        show ?thesis
        proof (cases "exec n B (B l (heap s r)) ?s1")
          case None
          with 4 True Some st show ?thesis by auto
        next
          case ex: (Some c1)
          have "R ?s1 (store_of c1)"
            using "4.IH"(2)[OF True Some st b _ ex] b by blast
          moreover have "R s ?s1" using inv[OF True Some st] .
          ultimately have f1: "R s (store_of c1)" by (rule trans[rotated])
          show ?thesis
          proof (cases c1)
            case (Returned s')
            with 4 True Some st ex have "forEach n B a (Suc i) s' = Some c" by simp
            then have "R s' (store_of c)"
              using "4.IH"(3)[OF True Some st ex Returned b] by simp
            with f1 Returned show ?thesis by (auto intro: trans)
          next
            case (Threw e s')
            with 4 True Some st ex have "c = c1" by simp
            with f1 show ?thesis by simp
          qed
        qed
      qed
    qed
  qed
next
  case (6 n B s)
  then show ?case by (auto simp: refl)
next
  case (7 n B p acts s)
  have b: "\<forall>l st x. x \<in> set (B l st) \<longrightarrow> ok x" using "7.prems"(1) .
  have okp: "ok (SetState p)" using "7.prems"(2) by simp
  have oka: "\<forall>x\<in>set acts. ok x" using "7.prems"(2) by simp
  show ?case
  proof (cases "setState n B p s")
    case None
    with 7 show ?thesis by simp
  next
    case ex: (Some c1)
    have f1: "R s (store_of c1)" using "7.IH"(1)[OF b okp ex] .
    show ?thesis
    proof (cases c1)
      case (Returned s')
      with 7 ex have "exec n B acts s' = Some c" by simp
      then have "R s' (store_of c)" using "7.IH"(2)[OF ex Returned b oka] by simp
      with f1 Returned show ?thesis by (auto intro: trans)
    next
      case (Threw e s')
      with 7 ex have "c = c1" by simp
      with f1 show ?thesis by simp
    qed
  qed
next
  case (8 n B acts s)
  then show ?case by (auto simp: refl split: sum.splits)
next
  case (9 n B l acts s)
  have "R s (fst (subscribe l s))" using sub "9.prems" by simp
  moreover have "R (fst (subscribe l s)) (store_of c)" using 9 by simp
  ultimately show ?case by (rule trans)
next
  case (10 n B l acts s)
  have "R s (unsubscribe l s)" using unsub "10.prems" by simp
  moreover have "R (unsubscribe l s) (store_of c)" using 10 by simp
  ultimately show ?case by (rule trans)
next
  case (11 n B acts s)
  have "R s (destroy s)" using des "11.prems" by simp
  moreover have "R (destroy s) (store_of c)" using 11 by simp
  ultimately show ?case by (rule trans)
next
  case (12 n B e acts s)
  then show ?case by (auto simp: refl)
qed simp_all

section \<open>Lemmas about runs\<close>

lemma grows_refl: "grows xs xs"
  by (simp add: grows_def)

lemma grows_trans: "grows xs ys \<Longrightarrow> grows ys zs \<Longrightarrow> grows xs zs"
  unfolding grows_def by (metis (no_types, lifting) le_trans less_le_trans)

lemma grows_set_add: "grows xs (set_add l xs)"
  by (simp add: grows_def set_add_def nth_append)

lemma grows_set_delete: "grows xs (set_delete l xs)"
  by (simp add: grows_def set_delete_def)

lemma grows_set_clear: "grows xs (set_clear xs)"
  by (simp add: grows_def set_clear_def)

lemma frame_refl: "frame s s"
  by (simp add: frame_def grows_refl)

lemma frame_trans:
  assumes "frame s t" and "frame t u"
  shows "frame s u"
proof -
  have 1: "fresh s \<le> fresh u" using assms by (simp add: frame_def)
  have 2: "\<forall>r<fresh s. heap u r = heap s r" using assms by (simp add: frame_def)
  have 3: "state u = state s \<or> (\<exists>a. state u = Some a \<and> fresh s \<le> a \<and> a < fresh u)"
    using assms unfolding frame_def by (metis le_trans less_le_trans)
  have 4: "\<exists>es. trace u = trace s @ es" using assms unfolding frame_def by auto
  have 5: "grows (listeners s) (listeners u)"
    using assms unfolding frame_def by (blast intro: grows_trans)
  from 1 2 3 4 5 show ?thesis by (simp add: frame_def)
qed

lemma frame_subscribe: "frame s (fst (subscribe l s))"
  by (simp add: frame_def subscribe_def grows_set_add)

lemma frame_unsubscribe: "frame s (unsubscribe l s)"
  by (simp add: frame_def unsubscribe_def grows_set_delete)

lemma frame_destroy: "frame s (destroy s)"
  by (simp add: frame_def destroy_def grows_set_clear)

lemma frame_assign_state: "assign_state p s = Inr s1 \<Longrightarrow> frame s s1"
  by (auto simp: frame_def assign_state_def grows_refl split: option.splits sum.splits)

lemma frame_trace: "frame s (s\<lparr>trace := trace s @ es\<rparr>)"
  by (simp add: frame_def grows_refl)

lemma frame_setState: "setState n B p s = Some c \<Longrightarrow> frame s (store_of c)"
  by (rule run_rel(1)[where R = frame and ok = "\<lambda>x. True"])
     (auto intro: frame_refl frame_trans frame_subscribe frame_unsubscribe frame_destroy
        frame_assign_state frame_trace)

lemma frame_forEach: "forEach n B a i s = Some c \<Longrightarrow> frame s (store_of c)"
  by (rule run_rel(2)[where R = frame and ok = "\<lambda>x. True"])
     (auto intro: frame_refl frame_trans frame_subscribe frame_unsubscribe frame_destroy
        frame_assign_state frame_trace)

lemma frame_exec: "exec n B acts s = Some c \<Longrightarrow> frame s (store_of c)"
  by (rule run_rel(3)[where R = frame and ok = "\<lambda>x. True"])
     (auto intro: frame_refl frame_trans frame_subscribe frame_unsubscribe frame_destroy
        frame_assign_state frame_trace)

lemma exec_Nil: "exec (Suc n) B [] s = Some (Returned s)"
  by simp

lemma forEach_inert:
  assumes inert: "\<And>l st. B l st = []" and st: "state s = Some r"
  shows "length (listeners s) - i < n \<Longrightarrow>
     forEach n B a i s =
       Some (Returned (s\<lparr>trace := trace s @ map (\<lambda>l. Invoked a l r) (live (drop i (listeners s)))\<rparr>))"
  using st
proof (induction n arbitrary: i s)
  case 0
  then show ?case by simp
next
  case (Suc n)
  show ?case
  proof (cases "i < length (listeners s)")
    case False
    then show ?thesis by simp
  next
    case True
    then have n: "length (listeners s) - Suc i < n" using Suc.prems by simp
    then obtain m where m: "n = Suc m" by (cases n) auto
    have d: "drop i (listeners s) = listeners s ! i # drop (Suc i) (listeners s)"
      using True by (simp add: Cons_nth_drop_Suc)
    show ?thesis
    proof (cases "listeners s ! i")
      case None
      with True d Suc.IH[OF n Suc.prems(2)] show ?thesis by simp
    next
      case (Some l)
      let ?s1 = "s\<lparr>trace := trace s @ [Invoked a l r]\<rparr>"
      have "length (listeners ?s1) - Suc i < n" "state ?s1 = Some r" using n Suc.prems by simp_all
      from Suc.IH[OF this] have "forEach n B a (Suc i) ?s1 =
        Some (Returned (?s1\<lparr>trace := trace ?s1 @ map (\<lambda>l. Invoked a l r) (live (drop (Suc i) (listeners ?s1)))\<rparr>))" .
      moreover have "exec n B (B l (heap s r)) ?s1 = Some (Returned ?s1)"
        using m inert by simp
      ultimately show ?thesis using True Some d Suc.prems(2) by simp
    qed
  qed
qed

lemma invocations_append: "invocations (es @ fs) = invocations es @ invocations fs"
  by (induction es rule: invocations.induct) simp_all

lemma invocations_map_Invoked: "invocations (map (\<lambda>l. Invoked a l r) ls) = map (\<lambda>l. (a, l, r)) ls"
  by (induction ls) simp_all

lemma setState_inert:
  assumes inert: "\<And>l st. B l st = []" and st: "state s = Some r"
    and d: "delta_of p (heap s r) = Inr d" and n: "length (listeners s) + 2 \<le> n"
  shows "setState n B p s =
     Some (Returned (s\<lparr>state := Some (fresh s),
                       heap := (heap s)(fresh s := heap s r ++ d),
                       fresh := Suc (fresh s),
                       trace := trace s @ Merged (fresh s) p
                                  # map (\<lambda>l. Invoked (fresh s) l (fresh s)) (live (listeners s))\<rparr>))"
proof -
  obtain m where m: "n = Suc m" "length (listeners s) < m" using n by (cases n) auto
  let ?s1 = "s\<lparr>state := Some (fresh s), heap := (heap s)(fresh s := heap s r ++ d),
               fresh := Suc (fresh s), trace := trace s @ [Merged (fresh s) p]\<rparr>"
  have a: "assign_state p s = Inr ?s1" using st d by (simp add: assign_state_def)
  have "state ?s1 = Some (fresh s)" "length (listeners ?s1) - 0 < m" using m by simp_all
  from forEach_inert[of B ?s1 "fresh s" 0 m "fresh s", OF inert this]
  show ?thesis using a m by simp
qed

lemma distinct_filter_one: "distinct xs \<Longrightarrow> x \<in> set xs \<Longrightarrow> length (filter (\<lambda>y. y = x) xs) = 1"
  by (induction xs) (auto simp: filter_empty_conv)

lemma live_Nil_nth: "live xs = [] \<Longrightarrow> j < length xs \<Longrightarrow> xs ! j = None"
proof (induction xs arbitrary: j rule: live.induct)
  case (2 xs)
  then show ?case by (cases j) simp_all
qed simp_all

lemma forEach_empty_entries:
  "live (listeners s) = [] \<Longrightarrow> length (listeners s) - i < n \<Longrightarrow>
   forEach n B a i s = Some (Returned s)"
proof (induction n arbitrary: i)
  case 0
  then show ?case by simp
next
  case (Suc n)
  show ?case
  proof (cases "i < length (listeners s)")
    case True
    with Suc.prems have e: "listeners s ! i = None" by (simp add: live_Nil_nth)
    have "forEach n B a (Suc i) s = Some (Returned s)"
      using Suc.prems True by (intro Suc.IH) auto
    with True e show ?thesis by simp
  next
    case False
    then show ?thesis by simp
  qed
qed

lemma setState_no_listeners:
  assumes e: "live (listeners s) = []" and st: "state s = Some r"
    and d: "delta_of p (heap s r) = Inr d" and n: "length (listeners s) + 2 \<le> n"
  shows "setState n B p s =
     Some (Returned (s\<lparr>state := Some (fresh s),
                       heap := (heap s)(fresh s := heap s r ++ d),
                       fresh := Suc (fresh s),
                       trace := trace s @ [Merged (fresh s) p]\<rparr>))"
proof -
  obtain m where m: "n = Suc m" "length (listeners s) < m" using n by (cases n) auto
  let ?s1 = "s\<lparr>state := Some (fresh s), heap := (heap s)(fresh s := heap s r ++ d),
               fresh := Suc (fresh s), trace := trace s @ [Merged (fresh s) p]\<rparr>"
  have a: "assign_state p s = Inr ?s1" using st d by (simp add: assign_state_def)
  have "live (listeners ?s1) = []" "length (listeners ?s1) - 0 < m" using m e by simp_all
  from forEach_empty_entries[OF this, of B "fresh s"]
  show ?thesis using a m by simp
qed

lemma subscribe_fields:
  "state (fst (subscribe l s)) = state s"
  "heap (fst (subscribe l s)) = heap s"
  "fresh (fst (subscribe l s)) = fresh s"
  "trace (fst (subscribe l s)) = trace s"
  "listeners (fst (subscribe l s)) = set_add l (listeners s)"
  by (simp_all add: subscribe_def)

lemma in_set_add: "Some l \<in> set (set_add l' xs) \<longleftrightarrow> l = l' \<or> Some l \<in> set xs"
  by (auto simp: set_add_def)

lemma in_set_delete: "Some l \<in> set (set_delete l' xs) \<longleftrightarrow> l \<noteq> l' \<and> Some l \<in> set xs"
  by (auto simp: set_delete_def)

lemma in_set_clear: "Some l \<notin> set (set_clear xs)"
  by (auto simp: set_clear_def)

lemma unheard_run:
  assumes nosub: "\<forall>l' st. Subscribe l \<notin> set (B l' st)"
  shows "setState n B p s = Some c \<Longrightarrow> unheard l s (store_of c)"
    and "forEach n B a i s = Some c \<Longrightarrow> unheard l s (store_of c)"
    and "Subscribe l \<notin> set acts \<Longrightarrow> exec n B acts s = Some c \<Longrightarrow> unheard l s (store_of c)"
proof -
  let ?ok = "\<lambda>x. x \<noteq> Subscribe l"
  have refl: "\<And>s. unheard l s s" by (simp add: unheard_def)
  have trans: "\<And>s t u. unheard l s t \<Longrightarrow> unheard l t u \<Longrightarrow> unheard l s u"
    by (auto simp: unheard_def)
  have sub: "\<And>l' s. ?ok (Subscribe l') \<Longrightarrow> unheard l s (fst (subscribe l' s))"
    by (auto simp: unheard_def subscribe_def in_set_add)
  have unsub: "\<And>l' s. ?ok (Unsubscribe l') \<Longrightarrow> unheard l s (unsubscribe l' s)"
    by (auto simp: unheard_def unsubscribe_def in_set_delete)
  have des: "\<And>s. ?ok Destroy \<Longrightarrow> unheard l s (destroy s)"
    by (auto simp: unheard_def destroy_def in_set_clear)
  have asg: "\<And>p s s1. ?ok (SetState p) \<Longrightarrow> assign_state p s = Inr s1 \<Longrightarrow> unheard l s s1"
    by (auto simp: unheard_def assign_state_def calls_to_def invocations_append
        split: option.splits sum.splits)
  have inv: "\<And>a l' r s i. i < length (listeners s) \<Longrightarrow> listeners s ! i = Some l' \<Longrightarrow>
      state s = Some r \<Longrightarrow> unheard l s (s\<lparr>trace := trace s @ [Invoked a l' r]\<rparr>)"
    by (auto simp: unheard_def calls_to_def invocations_append dest: nth_mem)
  have b: "\<forall>l' st x. x \<in> set (B l' st) \<longrightarrow> ?ok x" using nosub by auto
  show "setState n B p s = Some c \<Longrightarrow> unheard l s (store_of c)"
    by (rule run_rel(1)[where R = "unheard l" and ok = ?ok],
        rule refl, erule (1) trans, erule sub, erule unsub, erule des, erule (1) asg,
        erule (2) inv, rule b, simp, assumption)
  show "forEach n B a i s = Some c \<Longrightarrow> unheard l s (store_of c)"
    by (rule run_rel(2)[where R = "unheard l" and ok = ?ok],
        rule refl, erule (1) trans, erule sub, erule unsub, erule des, erule (1) asg,
        erule (2) inv, rule b, assumption)
  show "Subscribe l \<notin> set acts \<Longrightarrow> exec n B acts s = Some c \<Longrightarrow> unheard l s (store_of c)"
    by (rule run_rel(3)[where R = "unheard l" and ok = ?ok and acts = acts],
        rule refl, erule (1) trans, erule sub, erule unsub, erule des, erule (1) asg,
        erule (2) inv, rule b, blast, assumption)
qed

lemma exec_structural:
  "list_all structural acts \<Longrightarrow> state s \<noteq> None \<Longrightarrow> exec n B acts s = Some c \<Longrightarrow>
   \<exists>s'. c = Returned s' \<and> state s' \<noteq> None"
proof (induction acts arbitrary: n s)
  case Nil
  then show ?case by (cases n) auto
next
  case (Cons x acts)
  obtain m where m: "n = Suc m" using Cons.prems(3) by (cases n) auto
  show ?case
  proof (cases x)
    case (Subscribe l)
    with Cons.prems m have "exec m B acts (fst (subscribe l s)) = Some c" by simp
    moreover have "state (fst (subscribe l s)) \<noteq> None" using Cons.prems(2) by (simp add: subscribe_fields)
    ultimately show ?thesis using Cons.IH Cons.prems(1) by simp
  next
    case (Unsubscribe l)
    with Cons.prems m have "exec m B acts (unsubscribe l s) = Some c" by simp
    moreover have "state (unsubscribe l s) \<noteq> None" using Cons.prems(2) by (simp add: unsubscribe_def)
    ultimately show ?thesis using Cons.IH Cons.prems(1) by simp
  next
    case Destroy
    with Cons.prems m have "exec m B acts (destroy s) = Some c" by simp
    moreover have "state (destroy s) \<noteq> None" by (simp add: destroy_def)
    ultimately show ?thesis using Cons.IH Cons.prems(1) by simp
  qed (use Cons.prems in auto)
qed

lemma forEach_structural:
  assumes b: "\<forall>l st. list_all structural (B l st)"
  shows "state s \<noteq> None \<Longrightarrow> forEach n B a i s = Some c \<Longrightarrow> \<exists>s'. c = Returned s'"
proof (induction n arbitrary: i s)
  case 0
  then show ?case by simp
next
  case (Suc n)
  show ?case
  proof (cases "i < length (listeners s)")
    case False
    with Suc.prems show ?thesis by auto
  next
    case True
    show ?thesis
    proof (cases "listeners s ! i")
      case None
      with True Suc show ?thesis by simp
    next
      case (Some l)
      obtain r where r: "state s = Some r" using Suc.prems(1) by auto
      let ?s1 = "s\<lparr>trace := trace s @ [Invoked a l r]\<rparr>"
      show ?thesis
      proof (cases "exec n B (B l (heap s r)) ?s1")
        case None
        with True Some r Suc.prems show ?thesis by simp
      next
        case ex: (Some c1)
        have "state ?s1 \<noteq> None" using r by simp
        from exec_structural[OF _ this ex] b obtain s' where s': "c1 = Returned s'" "state s' \<noteq> None"
          by blast
        with True Some r ex Suc.prems have "forEach n B a (Suc i) s' = Some c" by simp
        with Suc.IH s' show ?thesis by blast
      qed
    qed
  qed
qed

lemma forEach_calls_registered:
  "forEach n B a i s = Some (Returned s') \<Longrightarrow> i \<le> j \<Longrightarrow> j < length (listeners s') \<Longrightarrow>
   listeners s' ! j = Some l \<Longrightarrow>
   \<exists>es r. trace s' = trace s @ es \<and> Invoked a l r \<in> set es"
proof (induction n arbitrary: i s)
  case 0
  then show ?case by simp
next
  case (Suc n)
  have gr: "grows (listeners s) (listeners s')"
    using frame_forEach[OF Suc.prems(1)] by (simp add: frame_def)
  show ?case
  proof (cases "i < length (listeners s)")
    case False
    with Suc.prems show ?thesis by simp
  next
    case True
    have at_i: "listeners s' ! i = listeners s ! i \<or> listeners s' ! i = None"
      using gr True by (simp add: grows_def)
    show ?thesis
    proof (cases "listeners s ! i")
      case None
      with True Suc.prems(1) have run: "forEach n B a (Suc i) s = Some (Returned s')" by simp
      have "j \<noteq> i" using at_i None Suc.prems(4) by auto
      with Suc.prems(2) have "Suc i \<le> j" by simp
      from Suc.IH[OF run this Suc.prems(3,4)] show ?thesis .
    next
      case (Some l0)
      show ?thesis
      proof (cases "state s")
        case None
        with True Some Suc.prems(1) show ?thesis by simp
      next
        case st: (Some r)
        let ?s1 = "s\<lparr>trace := trace s @ [Invoked a l0 r]\<rparr>"
        obtain s1 where ex: "exec n B (B l0 (heap s r)) ?s1 = Some (Returned s1)"
          and run: "forEach n B a (Suc i) s1 = Some (Returned s')"
          using True Some st Suc.prems(1)
          by (auto split: option.splits completion.splits)
        obtain es1 where es1: "trace s1 = trace s @ Invoked a l0 r # es1"
          using frame_exec[OF ex] by (auto simp: frame_def)
        obtain es2 where es2: "trace s' = trace s1 @ es2"
          using frame_forEach[OF run] by (auto simp: frame_def)
        show ?thesis
        proof (cases "j = i")
          case True
          with at_i Some Suc.prems(4) have "l0 = l" by auto
          with es1 es2 show ?thesis by auto
        next
          case False
          with Suc.prems(2) have "Suc i \<le> j" by simp
          from Suc.IH[OF run this Suc.prems(3,4)] obtain es r' where
            "trace s' = trace s1 @ es" "Invoked a l r' \<in> set es" by blast
          with es1 show ?thesis by auto
        qed
      qed
    qed
  qed
qed

lemma applied_append: "applied (es @ fs) = applied es @ applied fs"
  by (induction es rule: applied.induct) simp_all

lemma merge_partials_append:
  "merge_partials st (ps @ qs) =
     (case merge_partials st ps of Inl e \<Rightarrow> Inl e | Inr st' \<Rightarrow> merge_partials st' qs)"
  by (induction ps arbitrary: st) (auto split: sum.splits)

lemma merged_refl: "merged s s"
  by (simp add: merged_def)

lemma merged_trans:
  assumes "merged s t" and "merged t u"
  shows "merged s u"
  unfolding merged_def
proof (intro allI impI)
  fix r assume "state s = Some r"
  with assms(1) obtain es r' where 1: "trace t = trace s @ es" "state t = Some r'"
    "merge_partials (heap s r) (applied es) = Inr (heap t r')"
    by (auto simp: merged_def)
  with assms(2) obtain fs r'' where 2: "trace u = trace t @ fs" "state u = Some r''"
    "merge_partials (heap t r') (applied fs) = Inr (heap u r'')"
    by (auto simp: merged_def)
  have "trace u = trace s @ (es @ fs)" using 1 2 by simp
  moreover have "merge_partials (heap s r) (applied (es @ fs)) = Inr (heap u r'')"
    using 1 2 by (simp add: applied_append merge_partials_append)
  ultimately show "\<exists>es r'. trace u = trace s @ es \<and> state u = Some r' \<and>
      merge_partials (heap s r) (applied es) = Inr (heap u r')"
    using 2(2) by blast
qed

lemma merged_assign_state: "assign_state p s = Inr s1 \<Longrightarrow> merged s s1"
  by (auto simp: merged_def assign_state_def split: option.splits sum.splits)

lemma merged_run:
  assumes nd: "\<forall>l st. Destroy \<notin> set (B l st)"
  shows "setState n B p s = Some c \<Longrightarrow> merged s (store_of c)"
    and "Destroy \<notin> set acts \<Longrightarrow> exec n B acts s = Some c \<Longrightarrow> merged s (store_of c)"
proof -
  let ?ok = "\<lambda>x. x \<noteq> Destroy"
  have sub: "\<And>l s. ?ok (Subscribe l) \<Longrightarrow> merged s (fst (subscribe l s))"
    by (simp add: merged_def subscribe_fields)
  have unsub: "\<And>l s. ?ok (Unsubscribe l) \<Longrightarrow> merged s (unsubscribe l s)"
    by (simp add: merged_def unsubscribe_def)
  have des: "\<And>s. ?ok Destroy \<Longrightarrow> merged s (destroy s)"
    by simp
  have asg: "\<And>p s s1. ?ok (SetState p) \<Longrightarrow> assign_state p s = Inr s1 \<Longrightarrow> merged s s1"
    by (rule merged_assign_state)
  have inv: "\<And>a l r s i. i < length (listeners s) \<Longrightarrow> listeners s ! i = Some l \<Longrightarrow>
      state s = Some r \<Longrightarrow> merged s (s\<lparr>trace := trace s @ [Invoked a l r]\<rparr>)"
    by (simp add: merged_def)
  have b: "\<forall>l st x. x \<in> set (B l st) \<longrightarrow> ?ok x" using nd by auto
  show "setState n B p s = Some c \<Longrightarrow> merged s (store_of c)"
    by (rule run_rel(1)[where R = merged and ok = ?ok],
        rule merged_refl, erule (1) merged_trans, erule sub, erule unsub, erule des,
        erule (1) asg, erule (2) inv, rule b, simp, assumption)
  show "Destroy \<notin> set acts \<Longrightarrow> exec n B acts s = Some c \<Longrightarrow> merged s (store_of c)"
    by (rule run_rel(3)[where R = merged and ok = ?ok and acts = acts],
        rule merged_refl, erule (1) merged_trans, erule sub, erule unsub, erule des,
        erule (1) asg, erule (2) inv, rule b, blast, assumption)
qed

lemma same_state_forEach:
  assumes q: "\<forall>l st. list_all (\<lambda>x. \<not> assigns_state x) (B l st)"
  shows "forEach n B a i s = Some c \<Longrightarrow> same_state s (store_of c)"
proof -
  let ?ok = "\<lambda>x. \<not> assigns_state x"
  have refl: "\<And>s. same_state s s" by (simp add: same_state_def)
  have trans: "\<And>s t u. same_state s t \<Longrightarrow> same_state t u \<Longrightarrow> same_state s u"
    by (simp add: same_state_def)
  have sub: "\<And>l s. ?ok (Subscribe l) \<Longrightarrow> same_state s (fst (subscribe l s))"
    by (simp add: same_state_def subscribe_fields)
  have unsub: "\<And>l s. ?ok (Unsubscribe l) \<Longrightarrow> same_state s (unsubscribe l s)"
    by (simp add: same_state_def unsubscribe_def)
  have des: "\<And>s. ?ok Destroy \<Longrightarrow> same_state s (destroy s)"
    by simp
  have asg: "\<And>p s s1. ?ok (SetState p) \<Longrightarrow> assign_state p s = Inr s1 \<Longrightarrow> same_state s s1"
    by simp
  have inv: "\<And>a l r s i. i < length (listeners s) \<Longrightarrow> listeners s ! i = Some l \<Longrightarrow>
      state s = Some r \<Longrightarrow> same_state s (s\<lparr>trace := trace s @ [Invoked a l r]\<rparr>)"
    by (simp add: same_state_def)
  have b: "\<forall>l st x. x \<in> set (B l st) \<longrightarrow> ?ok x" using q by (auto simp: list_all_iff)
  show "forEach n B a i s = Some c \<Longrightarrow> same_state s (store_of c)"
    by (rule run_rel(2)[where R = same_state and ok = ?ok],
        rule refl, erule (1) trans, erule sub, erule unsub, erule des,
        erule (1) asg, erule (2) inv, rule b, assumption)
qed

lemma exec_setStates_quiet:
  assumes q: "\<forall>l st. list_all (\<lambda>x. \<not> assigns_state x) (B l st)"
  shows "state s = Some r \<Longrightarrow> exec n B (map SetState ps) s = Some (Returned s') \<Longrightarrow>
     \<exists>r'. state s' = Some r' \<and> merge_partials (heap s r) ps = Inr (heap s' r')"
proof (induction ps arbitrary: n s r)
  case Nil
  then show ?case by (cases n) auto
next
  case (Cons p ps)
  obtain m where m: "n = Suc m" using Cons.prems(2) by (cases n) auto
  obtain s1 where set1: "setState m B p s = Some (Returned s1)"
    and rest: "exec m B (map SetState ps) s1 = Some (Returned s')"
    using Cons.prems(2) m by (auto split: option.splits completion.splits)
  obtain k where k: "m = Suc k" using set1 by (cases m) auto
  obtain s0 where s0: "assign_state p s = Inr s0"
    and fe: "forEach k B (fresh s) 0 s0 = Some (Returned s1)"
    using set1 k by (cases "assign_state p s") auto
  obtain d where d: "delta_of p (heap s r) = Inr d"
    and s0_st: "state s0 = Some (fresh s)" and s0_hp: "heap s0 (fresh s) = heap s r ++ d"
    using s0 Cons.prems(1) by (auto simp: assign_state_def split: sum.splits)
  have "same_state s0 s1" using same_state_forEach[OF q fe] by simp
  then have s1: "state s1 = Some (fresh s)" "heap s1 (fresh s) = heap s r ++ d"
    using s0_st s0_hp by (simp_all add: same_state_def)
  from Cons.IH[OF s1(1) rest] s1(2) d show ?case by simp
qed

lemma exec_setStates_inert:
  assumes inert: "\<And>l st. B l st = []"
  shows "state s = Some r \<Longrightarrow> merge_partials (heap s r) ps = Inr st' \<Longrightarrow>
     length (listeners s) + length ps + 3 \<le> n \<Longrightarrow>
     \<exists>s' r'. exec n B (map SetState ps) s = Some (Returned s') \<and> state s' = Some r' \<and>
       heap s' r' = st'"
proof (induction ps arbitrary: n s r)
  case Nil
  then show ?case by (cases n) auto
next
  case (Cons p ps)
  obtain m where m: "n = Suc m" "length (listeners s) + length ps + 3 \<le> m"
    using Cons.prems(3) by (cases n) auto
  obtain d where d: "delta_of p (heap s r) = Inr d"
    and mp: "merge_partials (heap s r ++ d) ps = Inr st'"
    using Cons.prems(2) by (auto split: sum.splits)
  let ?s1 = "s\<lparr>state := Some (fresh s),
               heap := (heap s)(fresh s := heap s r ++ d),
               fresh := Suc (fresh s),
               trace := trace s @ Merged (fresh s) p
                          # map (\<lambda>l. Invoked (fresh s) l (fresh s)) (live (listeners s))\<rparr>"
  have set1: "setState m B p s = Some (Returned ?s1)"
    using m by (intro setState_inert[OF inert Cons.prems(1) d]) simp
  have "state ?s1 = Some (fresh s)" "merge_partials (heap ?s1 (fresh s)) ps = Inr st'"
    "length (listeners ?s1) + length ps + 3 \<le> m"
    using mp m by simp_all
  from Cons.IH[OF this] set1 m show ?case by simp
qed

text \<open>
  The bound on the number of steps only cuts a run short: a run that completes within a
  bound completes in the same way within every larger one.
\<close>

lemma more_steps:
  "setState n B p s = Some c \<Longrightarrow> n \<le> m \<Longrightarrow> setState m B p s = Some c"
  "forEach n B a i s = Some c \<Longrightarrow> n \<le> m \<Longrightarrow> forEach m B a i s = Some c"
  "exec n B acts s = Some c \<Longrightarrow> n \<le> m \<Longrightarrow> exec m B acts s = Some c"
proof (induction n B p s and n B a i s and n B acts s arbitrary: m c and m c and m c
    rule: setState_forEach_exec.induct)
  case (2 n B p s)
  obtain k where k: "m = Suc k" "n \<le> k" using "2.prems"(2) by (cases m) auto
  show ?case
  proof (cases "assign_state p s")
    case (Inl e)
    with "2.prems"(1) k show ?thesis by simp
  next
    case (Inr s1)
    with "2.prems"(1) have "forEach n B (fresh s) 0 s1 = Some c" by simp
    from "2.IH"[OF Inr this k(2)] Inr k show ?thesis by simp
  qed
next
  case (4 n B a i s)
  obtain k where k: "m = Suc k" "n \<le> k" using "4.prems"(2) by (cases m) auto
  show ?case
  proof (cases "i < length (listeners s)")
    case False
    with "4.prems"(1) k show ?thesis by simp
  next
    case True
    show ?thesis
    proof (cases "listeners s ! i")
      case None
      with "4.prems"(1) True have "forEach n B a (Suc i) s = Some c" by simp
      from "4.IH"(1)[OF True None this k(2)] True None k show ?thesis by simp
    next
      case (Some l)
      show ?thesis
      proof (cases "state s")
        case None
        with "4.prems"(1) True Some k show ?thesis by simp
      next
        case st: (Some r)
        let ?s1 = "s\<lparr>trace := trace s @ [Invoked a l r]\<rparr>"
        obtain c1 where ex: "exec n B (B l (heap s r)) ?s1 = Some c1"
          using "4.prems"(1) True Some st by (cases "exec n B (B l (heap s r)) ?s1") auto
        have ex': "exec k B (B l (heap s r)) ?s1 = Some c1"
          using "4.IH"(2)[OF True Some st ex k(2)] .
        show ?thesis
        proof (cases c1)
          case (Returned s')
          with "4.prems"(1) True Some st ex have "forEach n B a (Suc i) s' = Some c" by simp
          from "4.IH"(3)[OF True Some st ex Returned this k(2)] ex' Returned True Some st k
          show ?thesis by simp
        next
          case (Threw e s')
          with "4.prems"(1) True Some st ex have "c = c1" by simp
          with ex' Threw True Some st k show ?thesis by simp
        qed
      qed
    qed
  qed
next
  case (6 n B s)
  from "6.prems" show ?case by (cases m) auto
next
  case (7 n B p acts s)
  obtain k where k: "m = Suc k" "n \<le> k" using "7.prems"(2) by (cases m) auto
  obtain c1 where ex: "setState n B p s = Some c1"
    using "7.prems"(1) by (cases "setState n B p s") auto
  have ex': "setState k B p s = Some c1" using "7.IH"(1)[OF ex k(2)] .
  show ?case
  proof (cases c1)
    case (Returned s')
    with "7.prems"(1) ex have "exec n B acts s' = Some c" by simp
    from "7.IH"(2)[OF ex Returned this k(2)] ex' Returned k show ?thesis by simp
  next
    case (Threw e s')
    with "7.prems"(1) ex have "c = c1" by simp
    with ex' Threw k show ?thesis by simp
  qed
next
  case (8 n B acts s)
  obtain k where k: "m = Suc k" "n \<le> k" using "8.prems"(2) by (cases m) auto
  show ?case
  proof (cases "getState s")
    case (Inl e)
    with "8.prems"(1) k show ?thesis by simp
  next
    case (Inr r)
    with "8.prems"(1) have "exec n B acts s = Some c" by simp
    from "8.IH"[OF Inr this k(2)] Inr k show ?thesis by simp
  qed
next
  case (9 n B l acts s)
  obtain k where k: "m = Suc k" "n \<le> k" using "9.prems"(2) by (cases m) auto
  from "9.prems"(1) have "exec n B acts (fst (subscribe l s)) = Some c" by simp
  from "9.IH"[OF this k(2)] k show ?case by simp
next
  case (10 n B l acts s)
  obtain k where k: "m = Suc k" "n \<le> k" using "10.prems"(2) by (cases m) auto
  from "10.prems"(1) have "exec n B acts (unsubscribe l s) = Some c" by simp
  from "10.IH"[OF this k(2)] k show ?case by simp
next
  case (11 n B acts s)
  obtain k where k: "m = Suc k" "n \<le> k" using "11.prems"(2) by (cases m) auto
  from "11.prems"(1) have "exec n B acts (destroy s) = Some c" by simp
  from "11.IH"[OF this k(2)] k show ?case by simp
next
  case (12 n B e acts s)
  from "12.prems" show ?case by (cases m) auto
qed simp_all

lemma latest_append: "latest cur (es @ fs) = latest (latest cur es) fs"
  by (induction cur es rule: latest.induct) simp_all

lemma observes_current_append:
  "observes_current cur (es @ fs) \<longleftrightarrow>
     observes_current cur es \<and> observes_current (latest cur es) fs"
  by (induction cur es rule: observes_current.induct) auto

lemma current_refl: "current s s"
  by (simp add: current_def)

lemma current_trans:
  assumes "current s t" and "current t u"
  shows "current s u"
  unfolding current_def
proof (intro allI impI)
  fix r assume "state s = Some r"
  with assms(1) obtain es where 1: "trace t = trace s @ es" "observes_current r es"
    "state t = Some (latest r es)"
    by (auto simp: current_def)
  with assms(2) obtain fs where 2: "trace u = trace t @ fs"
    "observes_current (latest r es) fs" "state u = Some (latest (latest r es) fs)"
    by (auto simp: current_def)
  have "trace u = trace s @ (es @ fs)" using 1 2 by simp
  moreover have "observes_current r (es @ fs)"
    using 1 2 by (simp add: observes_current_append)
  moreover have "state u = Some (latest r (es @ fs))" using 2 by (simp add: latest_append)
  ultimately show "\<exists>es. trace u = trace s @ es \<and> observes_current r es \<and>
      state u = Some (latest r es)"
    by blast
qed

lemma current_setState:
  assumes nd: "\<forall>l st. Destroy \<notin> set (B l st)"
  shows "setState n B p s = Some c \<Longrightarrow> current s (store_of c)"
proof -
  let ?ok = "\<lambda>x. x \<noteq> Destroy"
  have sub: "\<And>l s. ?ok (Subscribe l) \<Longrightarrow> current s (fst (subscribe l s))"
    by (simp add: current_def subscribe_fields)
  have unsub: "\<And>l s. ?ok (Unsubscribe l) \<Longrightarrow> current s (unsubscribe l s)"
    by (simp add: current_def unsubscribe_def)
  have des: "\<And>s. ?ok Destroy \<Longrightarrow> current s (destroy s)"
    by simp
  have asg: "\<And>p s s1. ?ok (SetState p) \<Longrightarrow> assign_state p s = Inr s1 \<Longrightarrow> current s s1"
    by (auto simp: current_def assign_state_def split: option.splits sum.splits)
  have inv: "\<And>a l r s i. i < length (listeners s) \<Longrightarrow> listeners s ! i = Some l \<Longrightarrow>
      state s = Some r \<Longrightarrow> current s (s\<lparr>trace := trace s @ [Invoked a l r]\<rparr>)"
    by (simp add: current_def)
  have b: "\<forall>l st x. x \<in> set (B l st) \<longrightarrow> ?ok x" using nd by auto
  show "setState n B p s = Some c \<Longrightarrow> current s (store_of c)"
    by (rule run_rel(1)[where R = current and ok = ?ok],
        rule current_refl, erule (1) current_trans, erule sub, erule unsub, erule des,
        erule (1) asg, erule (2) inv, rule b, simp, assumption)
qed

lemma fresh_mono_setState: "setState n B p s = Some c \<Longrightarrow> fresh s \<le> fresh (store_of c)"
  using frame_setState[of n B p s c] by (simp add: frame_def)

lemma fresh_mono_forEach: "forEach n B a i s = Some c \<Longrightarrow> fresh s \<le> fresh (store_of c)"
  using frame_forEach[of n B a i s c] by (simp add: frame_def)

lemma fresh_mono_exec: "exec n B acts s = Some c \<Longrightarrow> fresh s \<le> fresh (store_of c)"
  using frame_exec[of n B acts s c] by (simp add: frame_def)

lemma later_passes_append:
  "later_passes k es \<Longrightarrow> later_passes k' fs \<Longrightarrow> k \<le> k' \<Longrightarrow> later_passes k (es @ fs)"
  by (fastforce simp: later_passes_def)

lemma pass_or_later_append:
  "pass_or_later a k es \<Longrightarrow> pass_or_later a k' fs \<Longrightarrow> k \<le> k' \<Longrightarrow>
   pass_or_later a k (es @ fs)"
  by (fastforce simp: pass_or_later_def)

lemma later_passes_imp: "later_passes k es \<Longrightarrow> pass_or_later a k es"
  by (simp add: later_passes_def pass_or_later_def)

lemma triggers_all:
  "(\<forall>p s c. setState n B p s = Some c \<longrightarrow>
      (\<exists>es. trace (store_of c) = trace s @ es \<and> later_passes (fresh s) es)) \<and>
   (\<forall>a i s c. forEach n B a i s = Some c \<longrightarrow>
      (\<exists>es. trace (store_of c) = trace s @ es \<and> pass_or_later a (fresh s) es)) \<and>
   (\<forall>acts s c. exec n B acts s = Some c \<longrightarrow>
      (\<exists>es. trace (store_of c) = trace s @ es \<and> later_passes (fresh s) es))"
proof (induction n)
  case 0
  show ?case by simp
next
  case (Suc n)
  have ihS: "\<exists>es. trace (store_of c) = trace s @ es \<and> later_passes (fresh s) es"
    if "setState n B p s = Some c" for p s c using Suc that by blast
  have ihF: "\<exists>es. trace (store_of c) = trace s @ es \<and> pass_or_later a (fresh s) es"
    if "forEach n B a i s = Some c" for a i s c using Suc that by blast
  have ihE: "\<exists>es. trace (store_of c) = trace s @ es \<and> later_passes (fresh s) es"
    if "exec n B acts s = Some c" for acts s c using Suc that by blast
  have S: "\<exists>es. trace (store_of c) = trace s @ es \<and> later_passes (fresh s) es"
    if run: "setState (Suc n) B p s = Some c" for p s c
  proof (cases "assign_state p s")
    case (Inl e)
    with run show ?thesis by (auto simp: later_passes_def)
  next
    case (Inr s1)
    with run have fe: "forEach n B (fresh s) 0 s1 = Some c" by simp
    from Inr have s1: "trace s1 = trace s @ [Merged (fresh s) p]" "fresh s1 = Suc (fresh s)"
      by (auto simp: assign_state_def split: option.splits sum.splits)
    from ihF[OF fe] obtain es where es: "trace (store_of c) = trace s1 @ es"
      "pass_or_later (fresh s) (fresh s1) es" by blast
    have "later_passes (fresh s) (Merged (fresh s) p # es)"
      using es(2) s1(2) by (fastforce simp: later_passes_def pass_or_later_def)
    with es(1) s1(1) show ?thesis by auto
  qed
  have F: "\<exists>es. trace (store_of c) = trace s @ es \<and> pass_or_later a (fresh s) es"
    if run: "forEach (Suc n) B a i s = Some c" for a i s c
  proof (cases "i < length (listeners s)")
    case False
    with run show ?thesis by (auto simp: pass_or_later_def)
  next
    case True
    show ?thesis
    proof (cases "listeners s ! i")
      case None
      with run True have "forEach n B a (Suc i) s = Some c" by simp
      from ihF[OF this] show ?thesis .
    next
      case (Some l)
      show ?thesis
      proof (cases "state s")
        case None
        with run True Some show ?thesis by (auto simp: pass_or_later_def)
      next
        case st: (Some r)
        let ?s1 = "s\<lparr>trace := trace s @ [Invoked a l r]\<rparr>"
        show ?thesis
        proof (cases "exec n B (B l (heap s r)) ?s1")
          case None
          with run True Some st show ?thesis by simp
        next
          case ex: (Some c1)
          from ihE[OF ex] obtain es1 where es1:
            "trace (store_of c1) = trace s @ Invoked a l r # es1" "later_passes (fresh s) es1"
            by auto
          have p1: "pass_or_later a (fresh s) (Invoked a l r # es1)"
            using es1(2) by (fastforce simp: later_passes_def pass_or_later_def)
          show ?thesis
          proof (cases c1)
            case (Threw e s')
            with run True Some st ex have "c = c1" by simp
            with es1(1) p1 show ?thesis by blast
          next
            case (Returned s')
            with run True Some st ex have fe: "forEach n B a (Suc i) s' = Some c" by simp
            from ihF[OF fe] obtain es2 where es2: "trace (store_of c) = trace s' @ es2"
              "pass_or_later a (fresh s') es2" by blast
            have "fresh s \<le> fresh s'" using fresh_mono_exec[OF ex] Returned by simp
            from pass_or_later_append[OF p1 es2(2) this] es1(1) es2(1) Returned
            show ?thesis by auto
          qed
        qed
      qed
    qed
  qed
  have E: "\<exists>es. trace (store_of c) = trace s @ es \<and> later_passes (fresh s) es"
    if run: "exec (Suc n) B acts s = Some c" for acts s c
  proof (cases acts)
    case Nil
    with run show ?thesis by (auto simp: later_passes_def)
  next
    case (Cons x xs)
    show ?thesis
    proof (cases x)
      case (SetState p)
      show ?thesis
      proof (cases "setState n B p s")
        case None
        with run Cons SetState show ?thesis by simp
      next
        case ex: (Some c1)
        from ihS[OF ex] obtain es1 where es1: "trace (store_of c1) = trace s @ es1"
          "later_passes (fresh s) es1" by blast
        show ?thesis
        proof (cases c1)
          case (Threw e s')
          with run Cons SetState ex have "c = c1" by simp
          with es1 show ?thesis by blast
        next
          case (Returned s')
          with run Cons SetState ex have r2: "exec n B xs s' = Some c" by simp
          from ihE[OF r2] obtain es2 where es2: "trace (store_of c) = trace s' @ es2"
            "later_passes (fresh s') es2" by blast
          have "fresh s \<le> fresh s'" using fresh_mono_setState[OF ex] Returned by simp
          from later_passes_append[OF es1(2) es2(2) this] es1(1) es2(1) Returned
          show ?thesis by auto
        qed
      qed
    next
      case GetState
      show ?thesis
      proof (cases "getState s")
        case (Inl e)
        with run Cons GetState show ?thesis by (auto simp: later_passes_def)
      next
        case (Inr r)
        with run Cons GetState have "exec n B xs s = Some c" by simp
        from ihE[OF this] show ?thesis .
      qed
    next
      case (Subscribe l)
      with run Cons have "exec n B xs (fst (subscribe l s)) = Some c" by simp
      from ihE[OF this] show ?thesis by (simp add: subscribe_fields)
    next
      case (Unsubscribe l)
      with run Cons have "exec n B xs (unsubscribe l s) = Some c" by simp
      from ihE[OF this] show ?thesis by (simp add: unsubscribe_def)
    next
      case Destroy
      with run Cons have "exec n B xs (destroy s) = Some c" by simp
      from ihE[OF this] obtain es where "trace (store_of c) = trace s @ es"
        "later_passes (Suc (fresh s)) es" by (auto simp: destroy_def)
      then show ?thesis by (fastforce simp: later_passes_def)
    next
      case (Raise e)
      with run Cons show ?thesis by (auto simp: later_passes_def)
    qed
  qed
  from S F E show ?case by blast
qed

lemma later_passes_exec:
  "exec n B acts s = Some c \<Longrightarrow>
   \<exists>es. trace (store_of c) = trace s @ es \<and> later_passes (fresh s) es"
  using triggers_all[of n B] by blast

lemma distinct_set_add: "distinct (live xs) \<Longrightarrow> distinct (live (set_add l xs))"
  by (simp add: live_set_add)

lemma distinct_set_delete: "distinct (live xs) \<Longrightarrow> distinct (live (set_delete l xs))"
  by (simp add: live_set_delete distinct_removeAll)

lemma distinct_run:
  "forEach n B a i s = Some c \<Longrightarrow> distinct (live (listeners s)) \<Longrightarrow>
     distinct (live (listeners (store_of c)))"
  "exec n B acts s = Some c \<Longrightarrow> distinct (live (listeners s)) \<Longrightarrow>
     distinct (live (listeners (store_of c)))"
proof -
  let ?R = "\<lambda>s s'. distinct (live (listeners s)) \<longrightarrow> distinct (live (listeners s'))"
  let ?ok = "\<lambda>x::action. True"
  have sub: "\<And>l s. ?ok (Subscribe l) \<Longrightarrow> ?R s (fst (subscribe l s))"
    by (simp add: subscribe_fields distinct_set_add)
  have unsub: "\<And>l s. ?ok (Unsubscribe l) \<Longrightarrow> ?R s (unsubscribe l s)"
    by (simp add: unsubscribe_def distinct_set_delete)
  have des: "\<And>s. ?ok Destroy \<Longrightarrow> ?R s (destroy s)"
    by (simp add: destroy_def live_set_clear)
  have asg: "\<And>p s s1. ?ok (SetState p) \<Longrightarrow> assign_state p s = Inr s1 \<Longrightarrow> ?R s s1"
    by (auto simp: assign_state_def split: option.splits sum.splits)
  have inv: "\<And>a l r s i. i < length (listeners s) \<Longrightarrow> listeners s ! i = Some l \<Longrightarrow>
      state s = Some r \<Longrightarrow> ?R s (s\<lparr>trace := trace s @ [Invoked a l r]\<rparr>)"
    by simp
  have "forEach n B a i s = Some c \<Longrightarrow> ?R s (store_of c)"
    by (rule run_rel(2)[where R = ?R and ok = ?ok],
        simp, simp, erule sub, erule unsub, erule des, erule (1) asg, erule (2) inv, simp,
        assumption)
  then show "forEach n B a i s = Some c \<Longrightarrow> distinct (live (listeners s)) \<Longrightarrow>
     distinct (live (listeners (store_of c)))" by simp
  have "exec n B acts s = Some c \<Longrightarrow> ?R s (store_of c)"
    by (rule run_rel(3)[where R = ?R and ok = ?ok and acts = acts],
        simp, simp, erule sub, erule unsub, erule des, erule (1) asg, erule (2) inv, simp,
        simp, assumption)
  then show "exec n B acts s = Some c \<Longrightarrow> distinct (live (listeners s)) \<Longrightarrow>
     distinct (live (listeners (store_of c)))" by simp
qed

lemma live_nth_inj:
  "distinct (live xs) \<Longrightarrow> i < length xs \<Longrightarrow> j < length xs \<Longrightarrow>
   xs ! i = Some l \<Longrightarrow> xs ! j = Some l \<Longrightarrow> i = j"
proof (induction xs arbitrary: i j rule: live.induct)
  case 1
  then show ?case by simp
next
  case (2 xs)
  then show ?case by (cases i; cases j) auto
next
  case (3 l' xs)
  show ?case
  proof (cases i)
    case 0
    show ?thesis
    proof (cases j)
      case 0
      with \<open>i = 0\<close> show ?thesis by simp
    next
      case (Suc j')
      with 3 0 have "Some l \<in> set xs" "l' = l" by (auto dest: nth_mem)
      with 3 show ?thesis by (simp add: set_live)
    qed
  next
    case (Suc i')
    show ?thesis
    proof (cases j)
      case 0
      with 3 Suc have "Some l \<in> set xs" "l' = l" by (auto dest: nth_mem)
      with 3 show ?thesis by (simp add: set_live)
    next
      case j: (Suc j')
      with 3 Suc show ?thesis by auto
    qed
  qed
qed

lemma calls_by_append: "calls_by a l (es @ fs) = calls_by a l es @ calls_by a l fs"
  by (simp add: calls_by_def invocations_append)

lemma invocations_mem: "(a, l, r) \<in> set (invocations es) \<longleftrightarrow> Invoked a l r \<in> set es"
  by (induction es rule: invocations.induct) auto

lemma calls_by_later: "later_passes k es \<Longrightarrow> a < k \<Longrightarrow> calls_by a l es = []"
  by (fastforce simp: calls_by_def later_passes_def filter_empty_conv invocations_mem)

lemma calls_by_Cons:
  "calls_by a l (Invoked a' l' r # es) =
     (if a' = a \<and> l' = l then (a', l', r) # calls_by a l es else calls_by a l es)"
  "calls_by a l (Merged a' p # es) = calls_by a l es"
  "calls_by a l [] = []"
  by (simp_all add: calls_by_def)

lemma forEach_once:
  "forEach n B a i s = Some (Returned s') \<Longrightarrow> a < fresh s \<Longrightarrow>
   distinct (live (listeners s)) \<Longrightarrow> j < length (listeners s) \<Longrightarrow>
   listeners s' ! j = Some l \<Longrightarrow>
   \<exists>es. trace s' = trace s @ es \<and> length (calls_by a l es) = (if i \<le> j then 1 else 0)"
proof (induction n arbitrary: i s)
  case 0
  then show ?case by simp
next
  case (Suc n)
  have gr: "grows (listeners s) (listeners s')"
    using frame_forEach[OF Suc.prems(1)] by (simp add: frame_def)
  with Suc.prems(4,5) have at_j: "listeners s ! j = Some l"
    by (auto simp: grows_def)
  show ?case
  proof (cases "i < length (listeners s)")
    case False
    with Suc.prems show ?thesis by (auto simp: calls_by_Cons)
  next
    case True
    show ?thesis
    proof (cases "listeners s ! i")
      case None
      with True Suc.prems(1) have run: "forEach n B a (Suc i) s = Some (Returned s')" by simp
      have "i \<noteq> j" using None at_j by auto
      with Suc.IH[OF run Suc.prems(2,3,4,5)] show ?thesis by auto
    next
      case (Some l0)
      show ?thesis
      proof (cases "state s")
        case None
        with True Some Suc.prems(1) show ?thesis by simp
      next
        case st: (Some r)
        let ?s1 = "s\<lparr>trace := trace s @ [Invoked a l0 r]\<rparr>"
        obtain s2 where ex: "exec n B (B l0 (heap s r)) ?s1 = Some (Returned s2)"
          and run: "forEach n B a (Suc i) s2 = Some (Returned s')"
          using True Some st Suc.prems(1)
          by (auto split: option.splits completion.splits)
        obtain es1 where es1: "trace s2 = trace s @ Invoked a l0 r # es1"
          "later_passes (fresh s) es1"
          using later_passes_exec[OF ex] by auto
        have e1: "calls_by a l es1 = []" using calls_by_later[OF es1(2) Suc.prems(2)] .
        have fr: "frame ?s1 s2" using frame_exec[OF ex] by simp
        then have f2: "a < fresh s2" "j < length (listeners s2)"
          using Suc.prems(2,4) by (auto simp: frame_def grows_def)
        have d2: "distinct (live (listeners s2))"
          using distinct_run(2)[OF ex] Suc.prems(3) by simp
        from Suc.IH[OF run f2(1) d2 f2(2) Suc.prems(5)] obtain es2 where es2:
          "trace s' = trace s2 @ es2"
          "length (calls_by a l es2) = (if Suc i \<le> j then 1 else 0)" by blast
        have tr: "trace s' = trace s @ ([Invoked a l0 r] @ es1 @ es2)"
          using es1(1) es2(1) by simp
        have "length (calls_by a l ([Invoked a l0 r] @ es1 @ es2)) = (if i \<le> j then 1 else 0)"
        proof (cases "i = j")
          case True
          with Some at_j have "l0 = l" by simp
          with True e1 es2(2) show ?thesis by (simp add: calls_by_append calls_by_Cons)
        next
          case False
          have "l0 \<noteq> l"
            using live_nth_inj[OF Suc.prems(3) \<open>i < length (listeners s)\<close> Suc.prems(4)] Some at_j False
            by auto
          with False e1 es2(2) show ?thesis
            by (simp add: calls_by_append calls_by_Cons)
        qed
        with tr show ?thesis by blast
      qed
    qed
  qed
qed

lemma setState_once:
  assumes run: "setState n B p s = Some (Returned s')"
    and di: "distinct (live (listeners s))"
    and j: "j < length (listeners s)" and l: "listeners s' ! j = Some l"
  shows "\<exists>es. trace s' = trace s @ es \<and> length (calls_by (fresh s) l es) = 1"
proof -
  obtain m where m: "n = Suc m" using run by (cases n) auto
  obtain s1 where s1: "assign_state p s = Inr s1"
    and fe: "forEach m B (fresh s) 0 s1 = Some (Returned s')"
    using run m by (cases "assign_state p s") auto
  have f: "fresh s < fresh s1" "listeners s1 = listeners s"
    "trace s1 = trace s @ [Merged (fresh s) p]"
    using s1 by (auto simp: assign_state_def split: option.splits sum.splits)
  from forEach_once[OF fe f(1), of j l] di j l f(2) obtain es where
    "trace s' = trace s1 @ es" "length (calls_by (fresh s) l es) = 1" by auto
  with f(3) have "trace s' = trace s @ (Merged (fresh s) p # es)"
    "length (calls_by (fresh s) l (Merged (fresh s) p # es)) = 1"
    by (simp_all add: calls_by_Cons)
  then show ?thesis by blast
qed

section \<open>The state after a sequence of setState calls\<close>

text \<open>
  C1. A client makes a sequence of \<open>setState\<close> calls on a store whose state is initialised.
  First, whatever the listeners do short of calling \<open>destroy\<close>, and however the run
  completes, the state afterwards is the left-to-right merge (\<open>merge_partials\<close>, the
  spec's merge: a function partial is applied to the state current at that point, the
  delta's keys win, the other keys are kept) of the partials that were applied, in the
  order of the trace, onto the state before; these are the partials of the sequence and
  those of the calls that listeners made in between. Second, when no listener assigns
  to the state, a sequence that returns leaves the merge of exactly the partials of the
  sequence. Third, when the listeners only look at the state and no partial throws, the
  sequence does return, given enough steps, with that merge as the state. Last, the
  spec's scenario: in the store created from the counter initializer, the state holds
  the function \<^verbatim>\<open>inc\<close>, and calling it three times leaves \<^verbatim>\<open>count\<close> equal to 3.
\<close>

theorem setState_sequence_merge:
  "((\<forall>l st. Destroy \<notin> set (B l st)) \<and> state s = Some r \<longrightarrow>
      (\<forall>n ps c. exec n B (map SetState ps) s = Some c \<longrightarrow>
         (\<exists>es r'. trace (store_of c) = trace s @ es \<and> getState (store_of c) = Inr r' \<and>
            merge_partials (heap s r) (applied es) = Inr (heap (store_of c) r')))) \<and>
   ((\<forall>l st. list_all (\<lambda>x. \<not> assigns_state x) (B l st)) \<and> state s = Some r \<longrightarrow>
      (\<forall>n ps s'. exec n B (map SetState ps) s = Some (Returned s') \<longrightarrow>
         (\<exists>r'. getState s' = Inr r' \<and> merge_partials (heap s r) ps = Inr (heap s' r')))) \<and>
   ((\<forall>l st. B l st = []) \<and> state s = Some r \<longrightarrow>
      (\<forall>n ps st'. merge_partials (heap s r) ps = Inr st' \<and>
           length (listeners s) + length ps + 3 \<le> n \<longrightarrow>
         (\<exists>s' r'. exec n B (map SetState ps) s = Some (Returned s') \<and>
            getState s' = Inr r' \<and> heap s' r' = st'))) \<and>
   (\<exists>s0 s3 r3. create 1 counter_bodies counter_init = Some (Returned s0) \<and>
      getState s0 = Inr 0 \<and> heap s0 0 ''inc'' = Some (VFun 0) \<and>
      exec 10 counter_bodies
        (counter_bodies 0 Map.empty @ counter_bodies 0 Map.empty @ counter_bodies 0 Map.empty) s0
        = Some (Returned s3) \<and>
      getState s3 = Inr r3 \<and> heap s3 r3 ''count'' = Some (VNum 3))"
proof -
  have a: "\<exists>es r'. trace (store_of c) = trace s @ es \<and> getState (store_of c) = Inr r' \<and>
            merge_partials (heap s r) (applied es) = Inr (heap (store_of c) r')"
    if nd: "\<forall>l st. Destroy \<notin> set (B l st)" and st: "state s = Some r"
      and run: "exec n B (map SetState ps) s = Some c" for n ps c
  proof -
    have "Destroy \<notin> set (map SetState ps)" by auto
    from merged_run(2)[OF nd this run] st show ?thesis
      by (auto simp: merged_def getState_def)
  qed
  have b: "\<exists>r'. getState s' = Inr r' \<and> merge_partials (heap s r) ps = Inr (heap s' r')"
    if q: "\<forall>l st. list_all (\<lambda>x. \<not> assigns_state x) (B l st)" and st: "state s = Some r"
      and run: "exec n B (map SetState ps) s = Some (Returned s')" for n ps s'
    using exec_setStates_quiet[OF q st run] by (auto simp: getState_def)
  have c: "\<exists>s' r'. exec n B (map SetState ps) s = Some (Returned s') \<and>
            getState s' = Inr r' \<and> heap s' r' = st'"
    if i: "\<forall>l st. B l st = []" and st: "state s = Some r"
      and mp: "merge_partials (heap s r) ps = Inr st'"
      and n: "length (listeners s) + length ps + 3 \<le> n" for n ps st'
  proof -
    have i': "\<And>l st. B l st = []" using i by simp
    from exec_setStates_inert[of B s r ps st' n, OF i' st mp n] show ?thesis
      by (auto simp: getState_def)
  qed
  have d: "\<exists>s0 s3 r3. create 1 counter_bodies counter_init = Some (Returned s0) \<and>
      getState s0 = Inr 0 \<and> heap s0 0 ''inc'' = Some (VFun 0) \<and>
      exec 10 counter_bodies
        (counter_bodies 0 Map.empty @ counter_bodies 0 Map.empty @ counter_bodies 0 Map.empty) s0
        = Some (Returned s3) \<and>
      getState s3 = Inr r3 \<and> heap s3 r3 ''count'' = Some (VNum 3)"
    by (simp add: eval_nat_numeral create_def counter_init_def init_store_def
        counter_bodies_def inc_updater_def assign_state_def getState_def)
  have ca: "(\<forall>l st. Destroy \<notin> set (B l st)) \<and> state s = Some r \<longrightarrow>
      (\<forall>n ps c. exec n B (map SetState ps) s = Some c \<longrightarrow>
         (\<exists>es r'. trace (store_of c) = trace s @ es \<and> getState (store_of c) = Inr r' \<and>
            merge_partials (heap s r) (applied es) = Inr (heap (store_of c) r')))"
    using a by blast
  have cb: "(\<forall>l st. list_all (\<lambda>x. \<not> assigns_state x) (B l st)) \<and> state s = Some r \<longrightarrow>
      (\<forall>n ps s'. exec n B (map SetState ps) s = Some (Returned s') \<longrightarrow>
         (\<exists>r'. getState s' = Inr r' \<and> merge_partials (heap s r) ps = Inr (heap s' r')))"
    using b by blast
  have cc: "(\<forall>l st. B l st = []) \<and> state s = Some r \<longrightarrow>
      (\<forall>n ps st'. merge_partials (heap s r) ps = Inr st' \<and>
           length (listeners s) + length ps + 3 \<le> n \<longrightarrow>
         (\<exists>s' r'. exec n B (map SetState ps) s = Some (Returned s') \<and>
            getState s' = Inr r' \<and> heap s' r' = st'))"
    using c by blast
  from ca cb cc d show ?thesis by (intro conjI)
qed

theorem setState_sequence_merge_witness:
  "(\<forall>l st. Destroy \<notin> set (reenter_bodies l st)) \<and> state counter_store = Some 0 \<and>
   (\<exists>c es r'. exec 12 reenter_bodies (map SetState [Fn inc_updater]) counter_store = Some c \<and>
      trace (store_of c) = trace counter_store @ es \<and>
      applied es = [Fn inc_updater, Obj [''count'' \<mapsto> VNum 2]] \<and>
      getState (store_of c) = Inr r' \<and>
      merge_partials (heap counter_store 0) (applied es) = Inr (heap (store_of c) r') \<and>
      heap (store_of c) r' ''count'' = Some (VNum 2)) \<and>
   (\<forall>l st. list_all (\<lambda>x. \<not> assigns_state x) (inert_bodies l st)) \<and>
   (\<forall>l st. inert_bodies l st = []) \<and>
   length (listeners counter_store) + length [Fn inc_updater, Obj [''count'' \<mapsto> VNum 5]] + 3 \<le> 7 \<and>
   (\<exists>s' r' st'.
      merge_partials (heap counter_store 0) [Fn inc_updater, Obj [''count'' \<mapsto> VNum 5]] = Inr st' \<and>
      st' ''count'' = Some (VNum 5) \<and>
      exec 7 inert_bodies (map SetState [Fn inc_updater, Obj [''count'' \<mapsto> VNum 5]]) counter_store
        = Some (Returned s') \<and>
      getState s' = Inr r' \<and> heap s' r' = st' \<and>
      merge_partials (heap counter_store 0) [Fn inc_updater, Obj [''count'' \<mapsto> VNum 5]]
        = Inr (heap s' r'))"
proof -
  have h: "\<forall>l st. Destroy \<notin> set (reenter_bodies l st)" "state counter_store = Some 0"
    by (simp_all add: reenter_bodies_def counter_store_def)
  obtain c where run:
    "exec 12 reenter_bodies (map SetState [Fn inc_updater]) counter_store = Some c"
    and tr: "trace (store_of c) =
      trace counter_store @ [Merged 1 (Fn inc_updater), Invoked 1 1 1,
        Merged 2 (Obj [''count'' \<mapsto> VNum 2]), Invoked 2 1 2, Invoked 2 2 2, Invoked 1 2 2]"
    and st: "state (store_of c) = Some 2" "heap (store_of c) 2 ''count'' = Some (VNum 2)"
    by (simp add: eval_nat_numeral counter_store_def reenter_bodies_def inc_updater_def
        assign_state_def)
  have t: "\<forall>n ps c. exec n reenter_bodies (map SetState ps) counter_store = Some c \<longrightarrow>
         (\<exists>es r'. trace (store_of c) = trace counter_store @ es \<and>
            getState (store_of c) = Inr r' \<and>
            merge_partials (heap counter_store 0) (applied es) = Inr (heap (store_of c) r'))"
    using setState_sequence_merge [of reenter_bodies counter_store 0] h by (elim conjE) blast
  from t run obtain es r' where e: "trace (store_of c) = trace counter_store @ es"
    "getState (store_of c) = Inr r'"
    "merge_partials (heap counter_store 0) (applied es) = Inr (heap (store_of c) r')"
    by blast
  from e(1) tr have "es = [Merged 1 (Fn inc_updater), Invoked 1 1 1,
        Merged 2 (Obj [''count'' \<mapsto> VNum 2]), Invoked 2 1 2, Invoked 2 2 2, Invoked 1 2 2]"
    by simp
  then have ap: "applied es = [Fn inc_updater, Obj [''count'' \<mapsto> VNum 2]]" by simp
  have "r' = 2" using e(2) st(1) by (simp add: getState_def)
  with st(2) have "heap (store_of c) r' ''count'' = Some (VNum 2)" by simp
  with run e ap have first: "\<exists>c es r'.
      exec 12 reenter_bodies (map SetState [Fn inc_updater]) counter_store = Some c \<and>
      trace (store_of c) = trace counter_store @ es \<and>
      applied es = [Fn inc_updater, Obj [''count'' \<mapsto> VNum 2]] \<and>
      getState (store_of c) = Inr r' \<and>
      merge_partials (heap counter_store 0) (applied es) = Inr (heap (store_of c) r') \<and>
      heap (store_of c) r' ''count'' = Some (VNum 2)"
    by (intro exI[of _ c] exI[of _ es] exI[of _ r'] conjI) assumption+
  let ?ps = "[Fn inc_updater, Obj [''count'' \<mapsto> VNum 5]]"
  have i: "\<forall>l st. list_all (\<lambda>x. \<not> assigns_state x) (inert_bodies l st)"
    "\<forall>l st. inert_bodies l st = []"
    "length (listeners counter_store) + length ?ps + 3 \<le> 7"
    by (simp_all add: inert_bodies_def counter_store_def)
  obtain st' where mp: "merge_partials (heap counter_store 0) ?ps = Inr st'"
    and cnt: "st' ''count'' = Some (VNum 5)"
    by (simp add: counter_store_def inc_updater_def)
  have t3: "\<forall>n ps st'. merge_partials (heap counter_store 0) ps = Inr st' \<and>
           length (listeners counter_store) + length ps + 3 \<le> n \<longrightarrow>
         (\<exists>s' r'. exec n inert_bodies (map SetState ps) counter_store = Some (Returned s') \<and>
            getState s' = Inr r' \<and> heap s' r' = st')"
    using setState_sequence_merge [of inert_bodies counter_store 0] h(2) i(2)
    by (elim conjE) blast
  from t3 mp i(3) obtain s' r2 where r3:
    "exec 7 inert_bodies (map SetState ?ps) counter_store = Some (Returned s')"
    "getState s' = Inr r2" "heap s' r2 = st'"
    by blast
  have t2: "\<forall>n ps s'. exec n inert_bodies (map SetState ps) counter_store = Some (Returned s') \<longrightarrow>
         (\<exists>r'. getState s' = Inr r' \<and>
            merge_partials (heap counter_store 0) ps = Inr (heap s' r'))"
    using setState_sequence_merge [of inert_bodies counter_store 0] h(2) i(1)
    by (elim conjE) blast
  from t2 r3(1) r3(2) have "merge_partials (heap counter_store 0) ?ps = Inr (heap s' r2)"
    by fastforce
  with mp cnt r3 have second: "\<exists>s' r' st'.
      merge_partials (heap counter_store 0) ?ps = Inr st' \<and>
      st' ''count'' = Some (VNum 5) \<and>
      exec 7 inert_bodies (map SetState ?ps) counter_store = Some (Returned s') \<and>
      getState s' = Inr r' \<and> heap s' r' = st' \<and>
      merge_partials (heap counter_store 0) ?ps = Inr (heap s' r')"
    by (intro exI[of _ s'] exI[of _ r2] exI[of _ st'] conjI) assumption+
  from h first i second show ?thesis by (intro conjI)
qed

section \<open>Listeners are notified with the state of the update\<close>

text \<open>
  C2, as stated, fails. The claim: every listener subscribed when a \<open>setState\<close> call
  begins is invoked exactly once by that call and observes the state that resulted from
  that call, also when \<open>setState\<close> calls are nested inside a listener. In the counter
  store with listeners 1 and 2, listener 1 answers the state with \<^verbatim>\<open>count\<close> 1 by a nested
  \<open>setState\<close>. The outer call produces state object 1, the nested call state object 2.
  The pass of the outer call (first component 1) then calls listener 2 with object 2,
  the result of the nested call: listener 2 is never called with object 1.
\<close>

theorem setState_nested_pass_observes_later_state:
  "live (listeners counter_store) = [1, 2] \<and>
   calls_of (setState 10 reenter_bodies (Obj [''count'' \<mapsto> VNum 1]) counter_store)
     = [(1, 1, 1), (2, 1, 2), (2, 2, 2), (1, 2, 2)]"
  by (simp add: eval_nat_numeral counter_store_def reenter_bodies_def assign_state_def)

text \<open>
  C2, amended. First, when no listener calls back into the store or throws, a
  \<open>setState\<close> call whose partial does not throw returns; it calls every listener that is
  in the Set when the call begins exactly once, in insertion order, and each of them
  with the state object that the call has just stored (the merge of the old state and
  the delta). Second, whatever the listeners do: when the call returns, a listener whose
  entry is in the Set when the call begins and still when it returns has been called
  exactly once by the pass of that call. Third, when listeners call back into the store
  (short of \<open>destroy\<close>), every listener call is still given the state that is current at
  the moment of the call, the object stored last; after a nested \<open>setState\<close> this is the
  result of the nested call.
\<close>

theorem setState_notifies_each_once:
  "((\<forall>l st. B l st = []) \<and> state s = Some r \<and> delta_of p (heap s r) = Inr d \<and>
      distinct (live (listeners s)) \<and> length (listeners s) + 2 \<le> n \<longrightarrow>
      (\<exists>s'. setState n B p s = Some (Returned s') \<and>
           state s' = Some (fresh s) \<and> heap s' (fresh s) = heap s r ++ d \<and>
           invocations (trace s') =
             invocations (trace s) @ map (\<lambda>l. (fresh s, l, fresh s)) (live (listeners s)) \<and>
           (\<forall>l. Some l \<in> set (listeners s) \<longrightarrow>
              length (filter (\<lambda>l'. l' = l) (live (listeners s))) = 1))) \<and>
   (\<forall>s' j l. setState n B p s = Some (Returned s') \<and> distinct (live (listeners s)) \<and>
        j < length (listeners s) \<and> listeners s ! j = Some l \<and> listeners s' ! j = Some l \<longrightarrow>
      (\<exists>es. trace s' = trace s @ es \<and> length (calls_by (fresh s) l es) = 1)) \<and>
   ((\<forall>l st. Destroy \<notin> set (B l st)) \<and> state s = Some r \<longrightarrow>
      (\<forall>c. setState n B p s = Some c \<longrightarrow>
         (\<exists>es. trace (store_of c) = trace s @ es \<and> observes_current r es \<and>
            state (store_of c) = Some (latest r es))))"
proof -
  have 1: "\<exists>s'. setState n B p s = Some (Returned s') \<and>
           state s' = Some (fresh s) \<and> heap s' (fresh s) = heap s r ++ d \<and>
           invocations (trace s') =
             invocations (trace s) @ map (\<lambda>l. (fresh s, l, fresh s)) (live (listeners s)) \<and>
           (\<forall>l. Some l \<in> set (listeners s) \<longrightarrow>
              length (filter (\<lambda>l'. l' = l) (live (listeners s))) = 1)"
    if i: "\<forall>l st. B l st = []" and st: "state s = Some r"
      and d: "delta_of p (heap s r) = Inr d" and di: "distinct (live (listeners s))"
      and n: "length (listeners s) + 2 \<le> n"
  proof -
    have "setState n B p s =
       Some (Returned (s\<lparr>state := Some (fresh s),
                         heap := (heap s)(fresh s := heap s r ++ d),
                         fresh := Suc (fresh s),
                         trace := trace s @ Merged (fresh s) p
                                    # map (\<lambda>l. Invoked (fresh s) l (fresh s)) (live (listeners s))\<rparr>))"
      using i st d n by (intro setState_inert) simp_all
    moreover have "length (filter (\<lambda>l'. l' = l) (live (listeners s))) = 1"
      if "Some l \<in> set (listeners s)" for l
      using that di by (simp add: distinct_filter_one set_live)
    ultimately show ?thesis
      by (simp add: invocations_append invocations_map_Invoked)
  qed
  have 2: "\<exists>es. trace (store_of c) = trace s @ es \<and> observes_current r es \<and>
            state (store_of c) = Some (latest r es)"
    if nd: "\<forall>l st. Destroy \<notin> set (B l st)" and st: "state s = Some r"
      and run: "setState n B p s = Some c" for c
    using current_setState[OF nd run] st by (simp add: current_def)
  have 3: "\<exists>es. trace s' = trace s @ es \<and> length (calls_by (fresh s) l es) = 1"
    if "setState n B p s = Some (Returned s')" "distinct (live (listeners s))"
      "j < length (listeners s)" "listeners s' ! j = Some l" for s' j l
    using that by (rule setState_once)
  have c1: "(\<forall>l st. B l st = []) \<and> state s = Some r \<and> delta_of p (heap s r) = Inr d \<and>
      distinct (live (listeners s)) \<and> length (listeners s) + 2 \<le> n \<longrightarrow>
      (\<exists>s'. setState n B p s = Some (Returned s') \<and>
           state s' = Some (fresh s) \<and> heap s' (fresh s) = heap s r ++ d \<and>
           invocations (trace s') =
             invocations (trace s) @ map (\<lambda>l. (fresh s, l, fresh s)) (live (listeners s)) \<and>
           (\<forall>l. Some l \<in> set (listeners s) \<longrightarrow>
              length (filter (\<lambda>l'. l' = l) (live (listeners s))) = 1))"
    using 1 by blast
  have c2: "\<forall>s' j l. setState n B p s = Some (Returned s') \<and> distinct (live (listeners s)) \<and>
        j < length (listeners s) \<and> listeners s ! j = Some l \<and> listeners s' ! j = Some l \<longrightarrow>
      (\<exists>es. trace s' = trace s @ es \<and> length (calls_by (fresh s) l es) = 1)"
    using 3 by blast
  have c3: "(\<forall>l st. Destroy \<notin> set (B l st)) \<and> state s = Some r \<longrightarrow>
      (\<forall>c. setState n B p s = Some c \<longrightarrow>
         (\<exists>es. trace (store_of c) = trace s @ es \<and> observes_current r es \<and>
            state (store_of c) = Some (latest r es)))"
    using 2 by blast
  from c1 c2 c3 show ?thesis by (intro conjI)
qed

theorem setState_notifies_each_once_witness:
  "(\<forall>l st. inert_bodies l st = []) \<and> state counter_store = Some 0 \<and>
   delta_of (Obj [''count'' \<mapsto> VNum 1]) (heap counter_store 0) = Inr [''count'' \<mapsto> VNum 1] \<and>
   distinct (live (listeners counter_store)) \<and> length (listeners counter_store) + 2 \<le> 4 \<and>
   (\<exists>s'. setState 4 inert_bodies (Obj [''count'' \<mapsto> VNum 1]) counter_store = Some (Returned s') \<and>
         state s' = Some 1 \<and>
         invocations (trace s') = [(1, 1, 1), (1, 2, 1)]) \<and>
   (\<exists>s' es. setState 10 reenter_bodies (Obj [''count'' \<mapsto> VNum 1]) counter_store
           = Some (Returned s') \<and>
         1 < length (listeners counter_store) \<and> listeners counter_store ! 1 = Some 2 \<and>
         listeners s' ! 1 = Some 2 \<and>
         trace s' = trace counter_store @ es \<and> length (calls_by (fresh counter_store) 2 es) = 1) \<and>
   (\<forall>l st. Destroy \<notin> set (reenter_bodies l st)) \<and>
   (\<exists>c es. setState 10 reenter_bodies (Obj [''count'' \<mapsto> VNum 1]) counter_store = Some c \<and>
         trace (store_of c) = trace counter_store @ es \<and> observes_current 0 es \<and>
         state (store_of c) = Some (latest 0 es) \<and> latest 0 es = 2)"
proof -
  have h: "\<forall>l st. inert_bodies l st = []" "state counter_store = Some 0"
    "delta_of (Obj [''count'' \<mapsto> VNum 1]) (heap counter_store 0) = Inr [''count'' \<mapsto> VNum 1]"
    "distinct (live (listeners counter_store))" "length (listeners counter_store) + 2 \<le> 4"
    "\<forall>l st. Destroy \<notin> set (reenter_bodies l st)"
    by (simp_all add: inert_bodies_def counter_store_def reenter_bodies_def)
  have a: "\<exists>s'. setState 4 inert_bodies (Obj [''count'' \<mapsto> VNum 1]) counter_store
        = Some (Returned s') \<and>
      state s' = Some 1 \<and> invocations (trace s') = [(1, 1, 1), (1, 2, 1)]"
    using setState_notifies_each_once
      [of inert_bodies counter_store 0 "Obj [''count'' \<mapsto> VNum 1]" "[''count'' \<mapsto> VNum 1]" 4]
      h(1,3)
    by (auto simp: counter_store_def)
  obtain s2 where run2:
    "setState 10 reenter_bodies (Obj [''count'' \<mapsto> VNum 1]) counter_store = Some (Returned s2)"
    and l2: "listeners s2 ! 1 = Some 2"
    by (simp add: eval_nat_numeral counter_store_def reenter_bodies_def assign_state_def)
  have j: "1 < length (listeners counter_store)" "listeners counter_store ! 1 = Some 2"
    by (simp_all add: counter_store_def)
  have t2: "\<forall>s' j l. setState 10 reenter_bodies (Obj [''count'' \<mapsto> VNum 1]) counter_store
        = Some (Returned s') \<and> distinct (live (listeners counter_store)) \<and>
        j < length (listeners counter_store) \<and> listeners counter_store ! j = Some l \<and>
        listeners s' ! j = Some l \<longrightarrow>
      (\<exists>es. trace s' = trace counter_store @ es \<and>
         length (calls_by (fresh counter_store) l es) = 1)"
    using setState_notifies_each_once
      [of reenter_bodies counter_store 0 "Obj [''count'' \<mapsto> VNum 1]" "[''count'' \<mapsto> VNum 1]" 10]
    by (elim conjE)
  from t2 run2 h(4) j l2 obtain es2 where
    "trace s2 = trace counter_store @ es2" "length (calls_by (fresh counter_store) 2 es2) = 1"
    by blast
  with run2 j l2 have m: "\<exists>s' es.
      setState 10 reenter_bodies (Obj [''count'' \<mapsto> VNum 1]) counter_store
           = Some (Returned s') \<and>
      1 < length (listeners counter_store) \<and> listeners counter_store ! 1 = Some 2 \<and>
      listeners s' ! 1 = Some 2 \<and>
      trace s' = trace counter_store @ es \<and> length (calls_by (fresh counter_store) 2 es) = 1"
    by (intro exI[of _ s2] exI[of _ es2] conjI) assumption+
  obtain c where run:
    "setState 10 reenter_bodies (Obj [''count'' \<mapsto> VNum 1]) counter_store = Some c"
    and st: "state (store_of c) = Some 2"
    by (simp add: eval_nat_numeral counter_store_def reenter_bodies_def assign_state_def)
  have t: "\<forall>c. setState 10 reenter_bodies (Obj [''count'' \<mapsto> VNum 1]) counter_store = Some c \<longrightarrow>
         (\<exists>es. trace (store_of c) = trace counter_store @ es \<and> observes_current 0 es \<and>
            state (store_of c) = Some (latest 0 es))"
    using setState_notifies_each_once
      [of reenter_bodies counter_store 0 "Obj [''count'' \<mapsto> VNum 1]" "[''count'' \<mapsto> VNum 1]" 10]
      h(2,6)
    by (elim conjE) blast
  from t run obtain es where e: "trace (store_of c) = trace counter_store @ es"
    "observes_current 0 es" "state (store_of c) = Some (latest 0 es)" by blast
  from e(3) st have "latest 0 es = 2" by simp
  with run e have b: "\<exists>c es.
      setState 10 reenter_bodies (Obj [''count'' \<mapsto> VNum 1]) counter_store = Some c \<and>
      trace (store_of c) = trace counter_store @ es \<and> observes_current 0 es \<and>
      state (store_of c) = Some (latest 0 es) \<and> latest 0 es = 2"
    by (intro exI[of _ c] exI[of _ es] conjI) assumption+
  from h a m b show ?thesis by (intro conjI)
qed

section \<open>The listener of the binding hook dispatches on a changed slice only\<close>

text \<open>
  C3. After a render has been committed with selector \<open>sel\<close> and slice \<open>sl\<close>, the hook's
  listener, on a notification, dispatches if and only if \<open>sel\<close> applied to the current
  state is not equal to \<open>sl\<close> under the equality it is given, and what it dispatches is
  that new slice. With the one-level equality of the spec it does not dispatch when the
  selector returns a newly allocated object with the same properties as the last
  rendered slice.
\<close>

theorem useStore_listener_dispatch:
  "state s = Some r \<Longrightarrow>
   (hook_listener eq (commit sel sl h) s = Inr (Some (sel r (heap s r))))
      = (\<not> eq sl (sel r (heap s r))) \<and>
   (hook_listener eq (commit sel sl h) s = Inr None) = eq sl (sel r (heap s r)) \<and>
   (sel r (heap s r) = Object r2 props \<longrightarrow>
      hook_listener shallowEqual (commit sel (Object r1 props) h) s = Inr None)"
  by (simp add: hook_listener_def commit_def Let_def)

theorem useStore_listener_dispatch_witness:
  "state counter_store = Some 0 \<and>
   count_slice 0 (heap counter_store 0) = Object 1 [''count'' \<mapsto> VNum 0] \<and>
   hook_listener shallowEqual
     (commit count_slice (Object 7 [''count'' \<mapsto> VNum 0]) unmounted_hook) counter_store
     = Inr None \<and>
   hook_listener shallowEqual
     (commit count_slice (Prim (VNum 0)) unmounted_hook) counter_store
     = Inr (Some (Object 1 [''count'' \<mapsto> VNum 0]))"
  using useStore_listener_dispatch
    [of counter_store 0 shallowEqual count_slice "Object 7 [''count'' \<mapsto> VNum 0]"
        unmounted_hook 1 "[''count'' \<mapsto> VNum 0]" 7]
    useStore_listener_dispatch
    [of counter_store 0 shallowEqual count_slice "Prim (VNum 0)"
        unmounted_hook 1 "[''count'' \<mapsto> VNum 0]" 7]
  by (simp add: counter_store_def count_slice_def)

section \<open>Changing the Set of listeners during a notification pass\<close>

text \<open>
  C4, as stated, fails. The claim: listeners added or removed during a notification
  pass are neither skipped nor invoked twice within that pass. In the counter store
  with listeners 1 and 2, listener 2 removes listener 1 and adds it again. The Set then
  has a new entry for listener 1 behind the entry of listener 2, and the pass of the one
  \<open>setState\<close> call (first component 1) calls listener 1 a second time.
\<close>

theorem forEach_readded_listener_invoked_twice:
  "live (listeners counter_store) = [1, 2] \<and>
   calls_of (setState 10 readd_bodies (Obj [''count'' \<mapsto> VNum 1]) counter_store)
     = [(1, 1, 1), (1, 2, 1), (1, 1, 1)]"
  by (simp add: eval_nat_numeral counter_store_def readd_bodies_def assign_state_def
      unsubscribe_def subscribe_def set_delete_def set_add_def)

text \<open>
  C4, amended. A notification pass iterates the live Set, in insertion order. When the
  listeners do nothing but change the Set (\<open>subscribe\<close>, \<open>unsubscribe\<close>, \<open>destroy\<close>), a
  \<open>setState\<close> call whose partial does not throw never completes with an exception. No
  listener is skipped: every listener that is in the Set when a pass returns, also one
  added during the pass, has been called by that pass. A listener that is not in the
  Set, and that no client subscribes again, is not called by the rest of the pass. A
  listener whose entry is in the Set when the \<open>setState\<close> call begins and still when it
  returns is called exactly once by the pass of that call; a listener that is removed
  and added again during the pass has a new entry and can be called again.
\<close>

theorem forEach_iterates_live_set:
  "((\<forall>l st. list_all structural (B l st)) \<and> state s = Some r \<and> delta_of p (heap s r) = Inr d \<longrightarrow>
      (\<forall>n e s'. setState n B p s \<noteq> Some (Threw e s'))) \<and>
   (\<forall>n s' l. setState n B p s = Some (Returned s') \<and> Some l \<in> set (listeners s') \<longrightarrow>
      (\<exists>es r'. trace s' = trace s @ es \<and> Invoked (fresh s) l r' \<in> set es)) \<and>
   (\<forall>n a i s' j l. forEach n B a i s = Some (Returned s') \<and> i \<le> j \<and>
        j < length (listeners s') \<and> listeners s' ! j = Some l \<longrightarrow>
      (\<exists>es r'. trace s' = trace s @ es \<and> Invoked a l r' \<in> set es)) \<and>
   (\<forall>n a i c l. (\<forall>l' st. Subscribe l \<notin> set (B l' st)) \<and> Some l \<notin> set (listeners s) \<and>
        forEach n B a i s = Some c \<longrightarrow>
      calls_to l (trace (store_of c)) = calls_to l (trace s)) \<and>
   (\<forall>n s' j l. setState n B p s = Some (Returned s') \<and> distinct (live (listeners s)) \<and>
        j < length (listeners s) \<and> listeners s ! j = Some l \<and> listeners s' ! j = Some l \<longrightarrow>
      (\<exists>es. trace s' = trace s @ es \<and> length (calls_by (fresh s) l es) = 1))"
proof -
  have 1: "setState n B p s \<noteq> Some (Threw e s')"
    if b: "\<forall>l st. list_all structural (B l st)" and st: "state s = Some r"
      and d: "delta_of p (heap s r) = Inr d" for n e s'
  proof
    assume run: "setState n B p s = Some (Threw e s')"
    then obtain m where m: "n = Suc m" by (cases n) auto
    obtain s1 where s1: "assign_state p s = Inr s1" "state s1 \<noteq> None"
      using st d by (simp add: assign_state_def)
    with run m have "forEach m B (fresh s) 0 s1 = Some (Threw e s')" by simp
    from forEach_structural[OF b s1(2) this] show False by simp
  qed
  have 3: "\<exists>es r'. trace s' = trace s @ es \<and> Invoked a l r' \<in> set es"
    if "forEach n B a i s = Some (Returned s')" "i \<le> j" "j < length (listeners s')"
      "listeners s' ! j = Some l" for n a i s' j l
    using that by (rule forEach_calls_registered)
  have 2: "\<exists>es r'. trace s' = trace s @ es \<and> Invoked (fresh s) l r' \<in> set es"
    if run: "setState n B p s = Some (Returned s')" and l: "Some l \<in> set (listeners s')"
    for n s' l
  proof -
    obtain m where m: "n = Suc m" using run by (cases n) auto
    obtain s1 where s1: "assign_state p s = Inr s1"
      and fe: "forEach m B (fresh s) 0 s1 = Some (Returned s')"
      using run m by (cases "assign_state p s") auto
    obtain j where j: "j < length (listeners s')" "listeners s' ! j = Some l"
      using l by (auto simp: in_set_conv_nth)
    from forEach_calls_registered[OF fe _ j] obtain es r' where
      "trace s' = trace s1 @ es" "Invoked (fresh s) l r' \<in> set es" by auto
    moreover obtain es1 where "trace s1 = trace s @ es1"
      using frame_assign_state[OF s1] by (auto simp: frame_def)
    ultimately show ?thesis by auto
  qed
  have 4: "calls_to l (trace (store_of c)) = calls_to l (trace s)"
    if h1: "\<forall>l' st. Subscribe l \<notin> set (B l' st)" and h2: "Some l \<notin> set (listeners s)"
      and h3: "forEach n B a i s = Some c" for n a i c l
    using unheard_run(2)[OF h1 h3] h2 by (simp add: unheard_def)
  have c1: "(\<forall>l st. list_all structural (B l st)) \<and> state s = Some r \<and> delta_of p (heap s r) = Inr d \<longrightarrow>
      (\<forall>n e s'. setState n B p s \<noteq> Some (Threw e s'))"
    using 1 by blast
  have c2: "\<forall>n s' l. setState n B p s = Some (Returned s') \<and> Some l \<in> set (listeners s') \<longrightarrow>
      (\<exists>es r'. trace s' = trace s @ es \<and> Invoked (fresh s) l r' \<in> set es)"
    using 2 by blast
  have c3: "\<forall>n a i s' j l. forEach n B a i s = Some (Returned s') \<and> i \<le> j \<and>
        j < length (listeners s') \<and> listeners s' ! j = Some l \<longrightarrow>
      (\<exists>es r'. trace s' = trace s @ es \<and> Invoked a l r' \<in> set es)"
    using 3 by blast
  have c4: "\<forall>n a i c l. (\<forall>l' st. Subscribe l \<notin> set (B l' st)) \<and> Some l \<notin> set (listeners s) \<and>
        forEach n B a i s = Some c \<longrightarrow>
      calls_to l (trace (store_of c)) = calls_to l (trace s)"
    using 4 by blast
  have 5: "\<exists>es. trace s' = trace s @ es \<and> length (calls_by (fresh s) l es) = 1"
    if "setState n B p s = Some (Returned s')" "distinct (live (listeners s))"
      "j < length (listeners s)" "listeners s' ! j = Some l" for n s' j l
    using that by (rule setState_once)
  have c5: "\<forall>n s' j l. setState n B p s = Some (Returned s') \<and> distinct (live (listeners s)) \<and>
        j < length (listeners s) \<and> listeners s ! j = Some l \<and> listeners s' ! j = Some l \<longrightarrow>
      (\<exists>es. trace s' = trace s @ es \<and> length (calls_by (fresh s) l es) = 1)"
    using 5 by blast
  from c1 c2 c3 c4 c5 show ?thesis by (intro conjI)
qed

theorem forEach_iterates_live_set_witness:
  "(\<forall>l st. list_all structural (canceller_bodies l st)) \<and> state counter_store = Some 0 \<and>
   delta_of (Obj [''count'' \<mapsto> VNum 1]) (heap counter_store 0) = Inr [''count'' \<mapsto> VNum 1] \<and>
   (\<forall>l' st. Subscribe 2 \<notin> set (canceller_bodies l' st)) \<and>
   (\<exists>s'. setState 5 canceller_bodies (Obj [''count'' \<mapsto> VNum 1]) counter_store
           = Some (Returned s') \<and>
         Some 1 \<in> set (listeners s') \<and>
         (\<exists>es r'. trace s' = trace counter_store @ es \<and> Invoked (fresh counter_store) 1 r' \<in> set es) \<and>
         live (listeners s') = [1] \<and> calls_to 2 (trace s') = [])"
proof -
  have h: "\<forall>l st. list_all structural (canceller_bodies l st)"
    "\<forall>l' st. Subscribe 2 \<notin> set (canceller_bodies l' st)"
    "state counter_store = Some 0"
    "delta_of (Obj [''count'' \<mapsto> VNum 1]) (heap counter_store 0) = Inr [''count'' \<mapsto> VNum 1]"
    by (simp_all add: canceller_bodies_def counter_store_def)
  obtain s' where run:
    "setState 5 canceller_bodies (Obj [''count'' \<mapsto> VNum 1]) counter_store = Some (Returned s')"
    and l: "Some 1 \<in> set (listeners s')" "live (listeners s') = [1]" "calls_to 2 (trace s') = []"
    by (simp add: eval_nat_numeral counter_store_def canceller_bodies_def assign_state_def
        unsubscribe_def set_delete_def calls_to_def)
  have t: "\<forall>n s' l. setState n canceller_bodies (Obj [''count'' \<mapsto> VNum 1]) counter_store
        = Some (Returned s') \<and> Some l \<in> set (listeners s') \<longrightarrow>
      (\<exists>es r'. trace s' = trace counter_store @ es \<and> Invoked (fresh counter_store) l r' \<in> set es)"
    using forEach_iterates_live_set [of canceller_bodies counter_store 0
      "Obj [''count'' \<mapsto> VNum 1]" "[''count'' \<mapsto> VNum 1]"] by (elim conjE)
  have "\<exists>es r'. trace s' = trace counter_store @ es \<and> Invoked (fresh counter_store) 1 r' \<in> set es"
    using t run l(1) by blast
  with h run l show ?thesis by (intro conjI exI[of _ s']) assumption+
qed

section \<open>Unsubscribing\<close>

text \<open>
  C5. The function that \<open>subscribe l\<close> returns is \<open>unsubscribe l\<close>. It removes \<open>l\<close> from
  the Set and leaves the other members as they are, in their order; a second call
  changes nothing. If no client subscribes \<open>l\<close> again, then after the removal no run
  calls \<open>l\<close>: not a later \<open>setState\<close>, not the rest of a notification pass that is
  under way (\<open>forEach\<close> from any index on), and not the rest of the listener body that
  made the removal together with everything that follows from it.
\<close>

theorem unsubscribe_stops_notifications:
  "snd (subscribe l s) = unsubscribe l \<and>
   live (listeners (unsubscribe l s)) = removeAll l (live (listeners s)) \<and>
   unsubscribe l (unsubscribe l s) = unsubscribe l s \<and>
   ((\<forall>l' st. Subscribe l \<notin> set (B l' st)) \<longrightarrow>
      (\<forall>n p c. setState n B p (unsubscribe l s) = Some c \<longrightarrow>
         calls_to l (trace (store_of c)) = calls_to l (trace s)) \<and>
      (\<forall>n a i c. forEach n B a i (unsubscribe l s) = Some c \<longrightarrow>
         calls_to l (trace (store_of c)) = calls_to l (trace s)) \<and>
      (\<forall>n acts c. Subscribe l \<notin> set acts \<and> exec n B (Unsubscribe l # acts) s = Some c \<longrightarrow>
         calls_to l (trace (store_of c)) = calls_to l (trace s)))"
proof -
  have 1: "snd (subscribe l s) = unsubscribe l" by (simp add: subscribe_def)
  have 2: "live (listeners (unsubscribe l s)) = removeAll l (live (listeners s))"
    by (simp add: unsubscribe_def live_set_delete)
  have 3: "unsubscribe l (unsubscribe l s) = unsubscribe l s"
    by (simp add: unsubscribe_def set_delete_idem)
  have gone: "Some l \<notin> set (listeners (unsubscribe l s))"
    by (simp add: unsubscribe_def in_set_delete)
  have tr: "trace (unsubscribe l s) = trace s" by (simp add: unsubscribe_def)
  have 4: "calls_to l (trace (store_of c)) = calls_to l (trace s)"
    if h1: "\<forall>l' st. Subscribe l \<notin> set (B l' st)"
      and h2: "setState n B p (unsubscribe l s) = Some c" for n p c
    using unheard_run(1)[OF h1 h2] gone tr by (simp add: unheard_def)
  have 5: "calls_to l (trace (store_of c)) = calls_to l (trace s)"
    if h1: "\<forall>l' st. Subscribe l \<notin> set (B l' st)"
      and h2: "forEach n B a i (unsubscribe l s) = Some c" for n a i c
    using unheard_run(2)[OF h1 h2] gone tr by (simp add: unheard_def)
  have 6: "calls_to l (trace (store_of c)) = calls_to l (trace s)"
    if h1: "\<forall>l' st. Subscribe l \<notin> set (B l' st)" and h2: "Subscribe l \<notin> set acts"
      and h3: "exec n B (Unsubscribe l # acts) s = Some c" for n acts c
  proof -
    obtain m where m: "n = Suc m" using h3 by (cases n) auto
    with h3 have "exec m B acts (unsubscribe l s) = Some c" by simp
    from unheard_run(3)[OF h1 h2 this] gone tr show ?thesis by (simp add: unheard_def)
  qed
  from 1 2 3 4 5 6 show ?thesis by blast
qed

theorem unsubscribe_stops_notifications_witness:
  "(\<forall>l' st. Subscribe 2 \<notin> set (canceller_bodies l' st)) \<and>
   live (listeners (unsubscribe 2 counter_store)) = [1] \<and>
   (\<exists>c. setState 5 canceller_bodies (Obj [''count'' \<mapsto> VNum 1]) (unsubscribe 2 counter_store)
          = Some c \<and>
        calls_to 2 (trace (store_of c)) = calls_to 2 (trace counter_store)) \<and>
   (\<exists>c. forEach 4 canceller_bodies 0 1 (unsubscribe 2 counter_store) = Some c \<and>
        calls_to 2 (trace (store_of c)) = calls_to 2 (trace counter_store)) \<and>
   calls_of (setState 5 canceller_bodies (Obj [''count'' \<mapsto> VNum 1]) counter_store)
     = [(1, 1, 1)]"
proof -
  have h: "\<forall>l' st. Subscribe 2 \<notin> set (canceller_bodies l' st)"
    by (simp add: canceller_bodies_def)
  obtain c where c:
    "setState 5 canceller_bodies (Obj [''count'' \<mapsto> VNum 1]) (unsubscribe 2 counter_store) = Some c"
    by (simp add: eval_nat_numeral counter_store_def canceller_bodies_def assign_state_def
        unsubscribe_def set_delete_def)
  have 1: "calls_to 2 (trace (store_of c)) = calls_to 2 (trace counter_store)"
    using unsubscribe_stops_notifications [of 2 counter_store canceller_bodies] h c by blast
  obtain c' where c': "forEach 4 canceller_bodies 0 1 (unsubscribe 2 counter_store) = Some c'"
    by (simp add: eval_nat_numeral counter_store_def canceller_bodies_def
        unsubscribe_def set_delete_def)
  have 2: "calls_to 2 (trace (store_of c')) = calls_to 2 (trace counter_store)"
    using unsubscribe_stops_notifications [of 2 counter_store canceller_bodies] h c' by blast
  have 3: "live (listeners (unsubscribe 2 counter_store)) = [1]"
    by (simp add: counter_store_def unsubscribe_def set_delete_def)
  have 4:
    "calls_of (setState 5 canceller_bodies (Obj [''count'' \<mapsto> VNum 1]) counter_store)
       = [(1, 1, 1)]"
    by (simp add: eval_nat_numeral counter_store_def canceller_bodies_def assign_state_def
        unsubscribe_def set_delete_def)
  from c 1 have a: "\<exists>c. setState 5 canceller_bodies (Obj [''count'' \<mapsto> VNum 1])
        (unsubscribe 2 counter_store) = Some c \<and>
        calls_to 2 (trace (store_of c)) = calls_to 2 (trace counter_store)" by blast
  from c' 2 have b: "\<exists>c. forEach 4 canceller_bodies 0 1 (unsubscribe 2 counter_store) = Some c \<and>
        calls_to 2 (trace (store_of c)) = calls_to 2 (trace counter_store)" by blast
  from h 3 a b 4 show ?thesis by (intro conjI)
qed

section \<open>Destroying a store\<close>

text \<open>
  C6. After \<open>destroy\<close> the Set has no member and \<open>getState\<close> returns a new object with
  no properties. A following \<open>setState\<close> whose partial does not throw returns, whatever
  the clients are: the new state is the delta merged onto the empty object, no listener
  is called (the trace gains the merge and nothing else), and the Set still has no
  member, so the same holds for every later \<open>setState\<close> until a listener is subscribed.
  \<open>subscribe\<close> after \<open>destroy\<close> registers the listener.
\<close>

theorem destroy_resets_store:
  "live (listeners (destroy s)) = [] \<and>
   getState (destroy s) = Inr (fresh s) \<and>
   heap (destroy s) (fresh s) = Map.empty \<and>
   live (listeners (fst (subscribe l (destroy s)))) = [l] \<and>
   (\<forall>p d n B. delta_of p Map.empty = Inr d \<and> length (listeners s) + 2 \<le> n \<longrightarrow>
      (\<exists>s'. setState n B p (destroy s) = Some (Returned s') \<and>
            getState s' = Inr (Suc (fresh s)) \<and>
            heap s' (Suc (fresh s)) = d \<and>
            trace s' = trace s @ [Merged (Suc (fresh s)) p] \<and>
            listeners s' = listeners (destroy s)))"
proof -
  have l: "live (listeners (destroy s)) = []"
    by (simp add: destroy_def live_set_clear)
  have g: "getState (destroy s) = Inr (fresh s)" "heap (destroy s) (fresh s) = Map.empty"
    by (simp_all add: destroy_def getState_def)
  have sub: "live (listeners (fst (subscribe l (destroy s)))) = [l]"
    using l by (simp add: subscribe_def live_set_add)
  have run: "\<exists>s'. setState n B p (destroy s) = Some (Returned s') \<and>
            getState s' = Inr (Suc (fresh s)) \<and>
            heap s' (Suc (fresh s)) = d \<and>
            trace s' = trace s @ [Merged (Suc (fresh s)) p] \<and>
            listeners s' = listeners (destroy s)"
    if "delta_of p Map.empty = Inr d" "length (listeners s) + 2 \<le> n" for p d n B
  proof -
    have "state (destroy s) = Some (fresh s)" "delta_of p (heap (destroy s) (fresh s)) = Inr d"
      "length (listeners (destroy s)) + 2 \<le> n"
      using that by (simp_all add: destroy_def set_clear_def)
    from setState_no_listeners[OF l this, of B] show ?thesis
      by (simp add: getState_def destroy_def)
  qed
  from l g sub run show ?thesis by blast
qed

theorem destroy_resets_store_witness:
  "delta_of (Obj [''count'' \<mapsto> VNum 5]) Map.empty = Inr [''count'' \<mapsto> VNum 5] \<and>
   length (listeners counter_store) + 2 \<le> 4 \<and>
   getState (destroy counter_store) = Inr 1 \<and>
   (\<exists>s'. setState 4 reenter_bodies (Obj [''count'' \<mapsto> VNum 5]) (destroy counter_store)
           = Some (Returned s') \<and>
         getState s' = Inr 2 \<and> heap s' 2 = [''count'' \<mapsto> VNum 5] \<and>
         invocations (trace s') = [])"
proof -
  have d: "delta_of (Obj [''count'' \<mapsto> VNum 5]) Map.empty = Inr [''count'' \<mapsto> VNum 5]"
    by simp
  have n: "length (listeners counter_store) + 2 \<le> 4" by (simp add: counter_store_def)
  have f: "fresh counter_store = 1" "trace counter_store = []"
    by (simp_all add: counter_store_def)
  from destroy_resets_store [of counter_store 0] d n
  obtain s' where
    "setState 4 reenter_bodies (Obj [''count'' \<mapsto> VNum 5]) (destroy counter_store)
       = Some (Returned s')"
    "getState s' = Inr (Suc (fresh counter_store))"
    "heap s' (Suc (fresh counter_store)) = [''count'' \<mapsto> VNum 5]"
    "trace s' = trace counter_store @ [Merged (Suc (fresh counter_store)) (Obj [''count'' \<mapsto> VNum 5])]"
    by blast
  moreover have "getState (destroy counter_store) = Inr 1"
    by (simp add: destroy_def getState_def f)
  ultimately show ?thesis using d n f by (auto simp: numeral_2_eq_2)
qed

section \<open>setState replaces the state object\<close>

text \<open>
  C7. \<open>setState\<close> never writes to an object that exists when it is called, whatever the
  listeners do and however the call completes: the contents of the previous state
  object, and of every other allocated object, are the same afterwards. When the call
  returns, \<open>state\<close> holds a reference that differs from the previous one. The previous
  state object is allocated (\<open>r < fresh s\<close>) in every store that \<open>create\<close> returns, and
  runs keep it so.
\<close>

theorem setState_replaces_state_object:
  "setState n B p s = Some c \<Longrightarrow> state s = Some r \<Longrightarrow> r < fresh s \<Longrightarrow>
     heap (store_of c) r = heap s r \<and>
     (\<forall>r0<fresh s. heap (store_of c) r0 = heap s r0) \<and>
     (\<forall>s'. c = Returned s' \<longrightarrow> (\<exists>a. state s' = Some a \<and> a \<noteq> r))"
proof -
  assume run: "setState n B p s = Some c" and st: "state s = Some r" and al: "r < fresh s"
  then have fr: "frame s (store_of c)" by (simp add: frame_setState)
  then have a: "\<forall>r0<fresh s. heap (store_of c) r0 = heap s r0" by (simp add: frame_def)
  have b: "\<exists>a. state s' = Some a \<and> a \<noteq> r" if ret: "c = Returned s'" for s'
  proof -
    obtain m where n: "n = Suc m" using run by (cases n) auto
    obtain s1 where s1: "assign_state p s = Inr s1" and fe: "forEach m B (fresh s) 0 s1 = Some c"
      using run n ret by (cases "assign_state p s") auto
    have st1: "state s1 = Some (fresh s)" "fresh s1 = Suc (fresh s)"
      using s1 st by (auto simp: assign_state_def split: sum.splits)
    from frame_forEach[OF fe] st1 ret al show ?thesis
      by (auto simp: frame_def)
  qed
  from a b al show ?thesis by auto
qed

theorem setState_replaces_state_object_witness:
  "state counter_store = Some 0 \<and> 0 < fresh counter_store \<and>
   (\<exists>s'. setState 10 reenter_bodies (Obj [''count'' \<mapsto> VNum 1]) counter_store
           = Some (Returned s') \<and>
         heap s' 0 = heap counter_store 0 \<and> state s' = Some 2)"
proof -
  have h: "state counter_store = Some 0" "0 < fresh counter_store"
    by (simp_all add: counter_store_def)
  obtain s' where run:
    "setState 10 reenter_bodies (Obj [''count'' \<mapsto> VNum 1]) counter_store = Some (Returned s')"
    and st: "state s' = Some 2"
    by (simp add: eval_nat_numeral counter_store_def reenter_bodies_def assign_state_def)
  from setState_replaces_state_object [OF run h] have "heap s' 0 = heap counter_store 0"
    by simp
  with h run st show ?thesis by blast
qed

lemma create_allocated:
  "create n B ini = Some (Returned s) \<Longrightarrow> \<exists>r. state s = Some r \<and> r < fresh s"
  by (auto simp: create_def split: option.splits completion.splits)

section \<open>Subscribing the same function twice\<close>

text \<open>
  C8. A second \<open>subscribe\<close> of the same function leaves the store as the first one made
  it: the function is in the Set once. With listeners that only look at the state, a
  \<open>setState\<close> call after the two subscriptions returns and calls each member of that Set
  once, so the function is called once. Whatever the listeners do, when the call returns
  and the function is still in the Set, the pass of the call has called it exactly once.
  After one call of \<open>unsubscribe\<close> the function is not in the Set.
\<close>

theorem subscribe_same_listener_once:
  "fst (subscribe l (fst (subscribe l s))) = fst (subscribe l s) \<and>
   (distinct (live (listeners s)) \<longrightarrow>
      length (filter (\<lambda>l'. l' = l) (live (listeners (fst (subscribe l s))))) = 1) \<and>
   ((\<forall>l st. B l st = []) \<and> state s = Some r \<and> delta_of p (heap s r) = Inr d \<and>
      length (listeners s) + 3 \<le> n \<longrightarrow>
      (\<exists>s'. setState n B p (fst (subscribe l (fst (subscribe l s)))) = Some (Returned s') \<and>
         invocations (trace s') =
           invocations (trace s) @
           map (\<lambda>l'. (fresh s, l', fresh s)) (live (listeners (fst (subscribe l s)))))) \<and>
   (\<forall>s' j. setState n B p (fst (subscribe l (fst (subscribe l s)))) = Some (Returned s') \<and>
        distinct (live (listeners s)) \<and> j < length (listeners (fst (subscribe l s))) \<and>
        listeners s' ! j = Some l \<longrightarrow>
      (\<exists>es. trace s' = trace s @ es \<and> length (calls_by (fresh s) l es) = 1)) \<and>
   l \<notin> set (live (listeners (unsubscribe l (fst (subscribe l (fst (subscribe l s)))))))"
proof -
  have 1: "fst (subscribe l (fst (subscribe l s))) = fst (subscribe l s)"
    by (simp add: subscribe_def set_add_idem)
  have 2: "length (filter (\<lambda>l'. l' = l) (live (listeners (fst (subscribe l s))))) = 1"
    if "distinct (live (listeners s))"
    using that by (intro distinct_filter_one) (auto simp: subscribe_def live_set_add)
  have 3: "\<exists>s'. setState n B p (fst (subscribe l (fst (subscribe l s)))) = Some (Returned s') \<and>
         invocations (trace s') =
           invocations (trace s) @
           map (\<lambda>l'. (fresh s, l', fresh s)) (live (listeners (fst (subscribe l s))))"
    if "\<forall>l st. B l st = []" "state s = Some r" "delta_of p (heap s r) = Inr d"
      "length (listeners s) + 3 \<le> n"
  proof -
    let ?t = "fst (subscribe l s)"
    have "state ?t = Some r" "delta_of p (heap ?t r) = Inr d" "length (listeners ?t) + 2 \<le> n"
      using that by (simp_all add: subscribe_fields set_add_def)
    from setState_inert[of B ?t r p d n, OF _ this] that(1) show ?thesis
      unfolding 1 by (simp add: invocations_append invocations_map_Invoked subscribe_fields)
  qed
  have 4: "l \<notin> set (live (listeners (unsubscribe l (fst (subscribe l (fst (subscribe l s)))))))"
    by (simp add: unsubscribe_def live_set_delete)
  have 5: "\<exists>es. trace s' = trace s @ es \<and> length (calls_by (fresh s) l es) = 1"
    if run: "setState n B p (fst (subscribe l (fst (subscribe l s)))) = Some (Returned s')"
      and di: "distinct (live (listeners s))"
      and j: "j < length (listeners (fst (subscribe l s)))"
      and l: "listeners s' ! j = Some l" for s' j
  proof -
    let ?t = "fst (subscribe l s)"
    have run': "setState n B p ?t = Some (Returned s')" using run unfolding 1 .
    have "distinct (live (listeners ?t))"
      using di by (simp add: subscribe_fields distinct_set_add)
    from setState_once[OF run' this j l] show ?thesis by (simp add: subscribe_fields)
  qed
  have c3: "(\<forall>l st. B l st = []) \<and> state s = Some r \<and> delta_of p (heap s r) = Inr d \<and>
      length (listeners s) + 3 \<le> n \<longrightarrow>
      (\<exists>s'. setState n B p (fst (subscribe l (fst (subscribe l s)))) = Some (Returned s') \<and>
         invocations (trace s') =
           invocations (trace s) @
           map (\<lambda>l'. (fresh s, l', fresh s)) (live (listeners (fst (subscribe l s)))))"
    using 3 by blast
  have c5: "\<forall>s' j. setState n B p (fst (subscribe l (fst (subscribe l s)))) = Some (Returned s') \<and>
        distinct (live (listeners s)) \<and> j < length (listeners (fst (subscribe l s))) \<and>
        listeners s' ! j = Some l \<longrightarrow>
      (\<exists>es. trace s' = trace s @ es \<and> length (calls_by (fresh s) l es) = 1)"
    using 5 by blast
  from 1 2 c3 c5 4 show ?thesis by blast
qed

theorem subscribe_same_listener_once_witness:
  "distinct (live (listeners counter_store)) \<and>
   (\<forall>l st. inert_bodies l st = []) \<and> state counter_store = Some 0 \<and>
   delta_of (Obj [''count'' \<mapsto> VNum 1]) (heap counter_store 0) = Inr [''count'' \<mapsto> VNum 1] \<and>
   length (listeners counter_store) + 3 \<le> 5 \<and>
   live (listeners (fst (subscribe 3 (fst (subscribe 3 counter_store))))) = [1, 2, 3] \<and>
   (\<exists>s'. setState 5 inert_bodies (Obj [''count'' \<mapsto> VNum 1])
            (fst (subscribe 3 (fst (subscribe 3 counter_store)))) = Some (Returned s') \<and>
         invocations (trace s') = [(1, 1, 1), (1, 2, 1), (1, 3, 1)])"
  using subscribe_same_listener_once
    [of 3 counter_store inert_bodies 0 "Obj [''count'' \<mapsto> VNum 1]" "[''count'' \<mapsto> VNum 1]" 5]
  by (auto simp: counter_store_def inert_bodies_def subscribe_def set_add_def)

section \<open>A throwing updater\<close>

text \<open>
  C9. When the partial is a function that throws on the current state, \<open>setState\<close>
  completes with that exception and with the store it was given: the variable \<open>state\<close>
  holds the same reference as before and the trace has no new listener call.
\<close>

theorem setState_throwing_updater:
  "state s = Some r \<Longrightarrow> f (heap s r) = Inl e \<Longrightarrow>
   setState (Suc n) B (Fn f) s = Some (Threw e s)"
  by (simp add: assign_state_def)

theorem setState_throwing_updater_witness:
  "state counter_store = Some 0 \<and>
   (\<lambda>st. Inl (Thrown ''boom'')) (heap counter_store 0) = (Inl (Thrown ''boom'') :: exn + obj) \<and>
   setState (Suc 0) counter_bodies (Fn (\<lambda>st. Inl (Thrown ''boom''))) counter_store
     = Some (Threw (Thrown ''boom'') counter_store)"
  using setState_throwing_updater
    [of counter_store 0 "\<lambda>st. Inl (Thrown ''boom'')" "Thrown ''boom''" 0 counter_bodies]
  by (simp add: counter_store_def)

section \<open>The initializer runs before the state exists\<close>

text \<open>
  C10. While the initializer runs, \<open>state\<close> is not initialised: \<open>getState\<close> and
  \<open>setState\<close> throw a ReferenceError there, so an initializer that makes any call of
  \<^verbatim>\<open>get\<close> or \<^verbatim>\<open>set\<close> before it returns makes \<open>create\<close> throw. An initializer that makes
  no such call lets \<open>create\<close> return a store whose state is the returned object, and on
  that store \<open>getState\<close> returns it.
\<close>

theorem initializer_capabilities_throw:
  "getState init_store = Inl ReferenceError \<and>
   setState (Suc n) B p init_store = Some (Threw ReferenceError init_store) \<and>
   create (Suc (Suc n)) B (c # cs, ob) = Some (Threw ReferenceError init_store) \<and>
   create (Suc n) B ([], ob) =
     Some (Returned (init_store\<lparr>state := Some 0, heap := (heap init_store)(0 := ob),
                                 fresh := Suc 0\<rparr>)) \<and>
   getState (init_store\<lparr>state := Some 0, heap := (heap init_store)(0 := ob),
                         fresh := Suc 0\<rparr>) = Inr 0"
  apply (intro conjI)
      apply (simp add: getState_def init_store_def)
     apply (simp add: assign_state_def init_store_def)
    apply (cases c; simp add: create_def assign_state_def getState_def init_store_def)
   apply (simp add: create_def init_store_def)
  apply (simp add: getState_def)
  done

end
